theory Spec2Isabelle
  imports Main "HOL-Library.Multiset"
begin

section \<open>The task heap of schedgroup\<close>

text \<open>
  The development follows \<^verbatim>\<open>conferences/2020/gopherconeu/final/schedgroup/group.go\<close>.

  An instant (\<^verbatim>\<open>time.Time\<close>) is an integer number of nanoseconds counted from Go's zero
  instant, so \<^verbatim>\<open>time.Time{}\<close> is \<open>0\<close>, \<^verbatim>\<open>IsZero\<close> is \<open>t = 0\<close>, \<^verbatim>\<open>Before\<close> is \<open><\<close> and
  \<^verbatim>\<open>After\<close> is \<open>>\<close>. A task body (\<^verbatim>\<open>func()\<close>) is opaque to the group; it is named by a
  natural number so that launches can be counted.
\<close>

type_synonym time = int

record task =
  Deadline :: time
  Call :: nat

text \<open>\<^verbatim>\<open>type tasks []task\<close> with its \<^verbatim>\<open>heap.Interface\<close> methods (group.go, lines 223-235).\<close>

type_synonym tasks = "task list"

definition Len :: "tasks \<Rightarrow> nat" where
  "Len pq = length pq"

definition Less :: "tasks \<Rightarrow> nat \<Rightarrow> nat \<Rightarrow> bool" where
  "Less pq i j = (Deadline (pq ! i) < Deadline (pq ! j))"

definition Swap :: "tasks \<Rightarrow> nat \<Rightarrow> nat \<Rightarrow> tasks" where
  "Swap pq i j = pq[i := pq ! j, j := pq ! i]"

definition Push :: "tasks \<Rightarrow> task \<Rightarrow> tasks" where
  "Push pq x = pq @ [x]"

text \<open>
  \<^verbatim>\<open>Pop\<close> slices off the last element. On an empty slice the Go code panics (index out of
  range); that is the \<open>None\<close> branch.
\<close>

definition Pop :: "tasks \<Rightarrow> (task \<times> tasks) option" where
  "Pop pq = (if pq = [] then None else Some (last pq, butlast pq))"

subsection \<open>Go's container/heap, as group.go calls it\<close>

text \<open>
  \<^verbatim>\<open>heap.Push\<close> and \<^verbatim>\<open>heap.Pop\<close> belong to the Go standard library; they are transcribed
  here because they drive the methods above.

  \<^verbatim>\<open>
  func up(h Interface, j int) {
      for {
          i := (j - 1) / 2 // parent
          if i == j || !h.Less(j, i) { break }
          h.Swap(i, j)
          j = i
      }
  }
  \<close>
  Indices are naturals. For \<open>j = 0\<close> Go computes \<open>(-1) / 2 = 0\<close> (division truncates toward
  zero) and the natural-number expression \<open>(0 - 1) div 2\<close> is \<open>0\<close> as well, so both leave the
  loop through \<open>i = j\<close>.
\<close>

function up :: "tasks \<Rightarrow> nat \<Rightarrow> tasks" where
  "up h j = (let i = (j - 1) div 2 in
     if i = j \<or> \<not> Less h j i then h else up (Swap h i j) i)"
  by pat_completeness auto
termination
  by (relation "measure (\<lambda>(h, j). j)") auto

text \<open>
  \<^verbatim>\<open>
  func down(h Interface, i0, n int) bool {
      i := i0
      for {
          j1 := 2*i + 1
          if j1 >= n || j1 < 0 { break }   // j1 < 0 after int overflow
          j := j1 // left child
          if j2 := j1 + 1; j2 < n && h.Less(j2, j1) { j = j2 }
          if !h.Less(j, i) { break }
          h.Swap(i, j)
          i = j
      }
      return i > i0
  }
  \<close>
  The boolean result is only read by \<^verbatim>\<open>heap.Fix\<close> and \<^verbatim>\<open>heap.Remove\<close>, which group.go does
  not call, so the model returns the slice alone. The overflow test \<open>j1 < 0\<close> cannot fire on
  a slice that fits in memory.
\<close>

function down :: "tasks \<Rightarrow> nat \<Rightarrow> nat \<Rightarrow> tasks" where
  "down h i n = (let j1 = 2 * i + 1 in
     if j1 \<ge> n then h
     else let j = (if j1 + 1 < n \<and> Less h (j1 + 1) j1 then j1 + 1 else j1) in
       if \<not> Less h j i then h else down (Swap h i j) j n)"
  by pat_completeness auto
termination
  by (relation "measure (\<lambda>(h, i, n). n - i)") auto

text \<open>
  \<^verbatim>\<open>
  func Push(h Interface, x any) { h.Push(x); up(h, h.Len()-1) }
  func Pop(h Interface) any {
      n := h.Len() - 1
      h.Swap(0, n)
      down(h, 0, n)
      return h.Pop()
  }
  \<close>
  \<^verbatim>\<open>heap.Pop\<close> on an empty heap panics in \<^verbatim>\<open>Swap(0, -1)\<close>: the \<open>None\<close> branch.
\<close>

definition heap_Push :: "tasks \<Rightarrow> task \<Rightarrow> tasks" where
  "heap_Push h x = (let h1 = Push h x in up h1 (Len h1 - 1))"

definition heap_Pop :: "tasks \<Rightarrow> (task \<times> tasks) option" where
  "heap_Pop h = (if Len h = 0 then None
     else let n = Len h - 1 in Pop (down (Swap h 0 n) 0 n))"

text \<open>The min-heap invariant: no element is earlier than its parent.\<close>

definition heap_inv :: "tasks \<Rightarrow> bool" where
  "heap_inv h = (\<forall>i \<in> {0 ..< length h}. Deadline (h ! ((i - 1) div 2)) \<le> Deadline (h ! i))"

declare up.simps [simp del] down.simps [simp del]

lemma heap_inv_alt:
  "heap_inv h = (\<forall>i < length h. Deadline (h ! ((i - 1) div 2)) \<le> Deadline (h ! i))"
  by (auto simp: heap_inv_def)

lemma length_Swap [simp]: "length (Swap h i j) = length h"
  by (simp add: Swap_def)

lemma length_up [simp]: "length (up h j) = length h"
proof (induction h j rule: up.induct)
  case (1 h j)
  show ?case using 1 by (subst up.simps) (simp add: Let_def)
qed

lemma length_down [simp]: "length (down h i n) = length h"
proof (induction h i n rule: down.induct)
  case (1 h i n)
  show ?case using 1 by (subst down.simps) (simp add: Let_def)
qed

lemma heap_Pop_length: "heap_Pop h = Some (t, h') \<Longrightarrow> length h = Suc (length h')"
  by (cases h) (auto simp: heap_Pop_def Pop_def Len_def Let_def split: if_splits)

lemma heap_Pop_None: "(heap_Pop h = None) = (h = [])"
proof -
  have "(down (Swap h 0 n) 0 n = []) = (h = [])" for n
    by (metis length_down length_Swap length_0_conv)
  then show ?thesis by (simp add: heap_Pop_def Pop_def Len_def Let_def)
qed

section \<open>The Group as a transition system\<close>

text \<open>
  \<^verbatim>\<open>context.Context\<close>: the caller's context is either live (\<open>None\<close>) or cancelled with its
  terminal error. \<^verbatim>\<open>ctx.Err()\<close> reads that value and \<^verbatim>\<open>ctx.Done()\<close> is closed exactly when
  it is not \<open>None\<close>.
\<close>

datatype ctx_error = Canceled | DeadlineExceeded

text \<open>
  \<^verbatim>\<open>time.Duration\<close> is a signed 64-bit count of nanoseconds. \<^verbatim>\<open>Time.Sub\<close> saturates at the
  ends of that range; \<^verbatim>\<open>Time.Add\<close> on an instant read from the clock cannot leave the range
  of \<^verbatim>\<open>time.Time\<close>.
\<close>

type_synonym duration = int

definition maxDuration :: duration where
  "maxDuration = 2 ^ 63 - 1"

definition minDuration :: duration where
  "minDuration = - (2 ^ 63)"

definition time_Add :: "time \<Rightarrow> duration \<Rightarrow> time" where
  "time_Add t d = t + d"

definition time_Sub :: "time \<Rightarrow> time \<Rightarrow> duration" where
  "time_Sub t u = (let d = t - u in
     if d > maxDuration then maxDuration else if d < minDuration then minDuration else d)"

text \<open>
  The goroutine that called \<^verbatim>\<open>Wait\<close> is at one of these places of group.go:
  \<^item> \<open>W_idle\<close>: \<^verbatim>\<open>Wait\<close> has not been called;
  \<^item> \<open>W_heap\<close>: past the check of line 91, before \<^verbatim>\<open>g.mu.Lock()\<close> of line 96;
  \<^item> \<open>W_cancel\<close>: before \<^verbatim>\<open>g.cancel()\<close> (line 103 or line 126);
  \<^item> \<open>W_wg\<close>: in \<^verbatim>\<open>g.wg.Wait()\<close> (line 104 or line 127);
  \<^item> \<open>W_loop\<close>: at the top of the loop of line 114, about to execute the \<^verbatim>\<open>select\<close>;
  \<^item> \<open>W_select\<close>: parked in the \<^verbatim>\<open>select\<close> of line 115, no case being ready;
  \<^item> \<open>W_recv n\<close>: has received \<open>n\<close> from \<^verbatim>\<open>g.lenC\<close> (line 118), before line 119;
  \<^item> \<open>W_ret r\<close>: \<^verbatim>\<open>Wait\<close> has returned \<open>r\<close> (\<open>None\<close> is the nil error).
\<close>

datatype wait_pc =
  W_idle | W_heap | W_cancel | W_wg | W_loop | W_select | W_recv nat | W_ret "ctx_error option"

text \<open>
  The monitor goroutine is at one of these places:
  \<^item> \<open>M_top\<close>: at the top of its loop (line 142);
  \<^item> \<open>M_trig now\<close>: it has read \<^verbatim>\<open>now\<close> (line 147) and is about to run \<^verbatim>\<open>g.trigger(now)\<close>;
  \<^item> \<open>M_armed tickC\<close>: it has set its timer (lines 150-156) and is about to execute the
    \<^verbatim>\<open>select\<close> of line 160; the flag says whether \<^verbatim>\<open>tickC\<close> is the timer's channel (else nil);
  \<^item> \<open>M_select tickC\<close>: parked in that \<^verbatim>\<open>select\<close>, no case being ready;
  \<^item> \<open>M_done\<close>: it has returned.
\<close>

datatype mon_pc = M_top | M_trig time | M_armed bool | M_select bool | M_done

datatype timer = Armed duration | Stopped

text \<open>
  The fields of \<^verbatim>\<open>Group\<close> and the state of the goroutines around it. \<open>ctx_err\<close> is \<^verbatim>\<open>g.ctx\<close>;
  \<open>mctx_done\<close> says whether the derived context that \<^verbatim>\<open>g.cancel\<close> cancels has fired;
  \<open>wg\<close> is the counter of \<^verbatim>\<open>g.wg\<close>. The channels \<^verbatim>\<open>addC\<close> and \<^verbatim>\<open>lenC\<close> are unbuffered and hold
  no state: a non-blocking send succeeds exactly when the receiver is parked in its
  \<^verbatim>\<open>select\<close>. \<^verbatim>\<open>g.mu\<close> is not represented: every critical section is a single transition.
  \<open>accepted\<close>, \<open>started\<close> and \<open>finished\<close> log the tasks pushed by \<^verbatim>\<open>Schedule\<close>, the bodies
  started by the \<^verbatim>\<open>go\<close> statement of line 204, and the bodies that have returned.
\<close>

record group =
  ctx_err :: "ctx_error option"
  mctx_done :: bool
  wg :: int
  tasks :: tasks
  wait_pc :: wait_pc
  mon_pc :: mon_pc
  timer :: timer
  accepted :: "task list"
  started :: "task list"
  finished :: "task list"

text \<open>
  \<^verbatim>\<open>New\<close> (lines 33-52). A context derived from a cancelled parent is born cancelled.
  \<^verbatim>\<open>g.wg.Add(1)\<close> counts the monitor, whose timer is created by \<^verbatim>\<open>time.NewTimer(0)\<close>.
\<close>

definition New :: "ctx_error option \<Rightarrow> group" where
  "New ctx = \<lparr>ctx_err = ctx, mctx_done = (ctx \<noteq> None), wg = 1, tasks = [],
     wait_pc = W_idle, mon_pc = M_top, timer = Armed 0,
     accepted = [], started = [], finished = []\<rparr>"

text \<open>
  \<^verbatim>\<open>Schedule\<close> (lines 67-81), one critical section: the push, then the non-blocking send on
  \<^verbatim>\<open>addC\<close>, which a monitor parked in its \<^verbatim>\<open>select\<close> receives (it then loops). The function has
  no \<^verbatim>\<open>panic\<close> and no error result, so neither has the model.
\<close>

definition Schedule :: "time \<Rightarrow> nat \<Rightarrow> group \<Rightarrow> group" where
  "Schedule when fn g =
     (let t = \<lparr>Deadline = when, Call = fn\<rparr>;
          g1 = g\<lparr>tasks := heap_Push (tasks g) t, accepted := accepted g @ [t]\<rparr>
      in case mon_pc g1 of M_select b \<Rightarrow> g1\<lparr>mon_pc := M_top\<rparr> | _ \<Rightarrow> g1)"

text \<open>\<^verbatim>\<open>Delay\<close> (lines 59-61); \<open>now\<close> is what \<^verbatim>\<open>time.Now()\<close> returns at the call.\<close>

definition Delay :: "time \<Rightarrow> duration \<Rightarrow> nat \<Rightarrow> group \<Rightarrow> group" where
  "Delay now delay fn g = Schedule (time_Add now delay) fn g"

text \<open>
  The loop of \<^verbatim>\<open>trigger\<close> (lines 193-211). \<^verbatim>\<open>heap.Pop\<close> is only reached with \<open>Len > 0\<close>, so its
  panic branch is dead code here.
\<close>

function trigger_loop :: "time \<Rightarrow> group \<Rightarrow> group \<times> time" where
  "trigger_loop now g =
     (if Len (tasks g) > 0 then
        let next = tasks g ! 0 in
        if Deadline next > now then (g, Deadline next)
        else (case heap_Pop (tasks g) of
                None \<Rightarrow> (g, 0)
              | Some (t, h') \<Rightarrow>
                  trigger_loop now (g\<lparr>tasks := h', wg := wg g + 1, started := started g @ [t]\<rparr>))
      else (g, 0))"
  by pat_completeness auto
termination
  by (relation "measure (\<lambda>(now, g). length (tasks g))") (auto dest: heap_Pop_length)

declare trigger_loop.simps [simp del]

text \<open>
  \<^verbatim>\<open>trigger\<close> (lines 176-212) with its deferred function: after the loop, still inside the
  critical section, the heap length is offered on \<^verbatim>\<open>lenC\<close>; \<^verbatim>\<open>Wait\<close> takes it if it is parked
  in its \<^verbatim>\<open>select\<close>.
\<close>

definition trigger :: "time \<Rightarrow> group \<Rightarrow> group \<times> time" where
  "trigger now g =
     (let (g1, next) = trigger_loop now g in
      (if wait_pc g1 = W_select then g1\<lparr>wait_pc := W_recv (Len (tasks g1))\<rparr> else g1, next))"

text \<open>
  One move of the goroutine in \<^verbatim>\<open>Wait\<close> (lines 89-131). Executing the \<^verbatim>\<open>select\<close>, it takes
  the \<^verbatim>\<open>ctx.Done()\<close> case if the context is cancelled and parks otherwise (no sender ever
  waits on \<^verbatim>\<open>lenC\<close>, whose sends do not block). Parked, it can only take the \<^verbatim>\<open>ctx.Done()\<close>
  case by itself; the \<^verbatim>\<open>lenC\<close> case is taken by \<open>trigger\<close>. In \<^verbatim>\<open>g.wg.Wait()\<close> it stays until
  the counter is zero.
\<close>

definition Wait :: "group \<Rightarrow> group" where
  "Wait g = (case wait_pc g of
       W_idle \<Rightarrow> (case ctx_err g of Some err \<Rightarrow> g\<lparr>wait_pc := W_ret (Some err)\<rparr>
                                   | None \<Rightarrow> g\<lparr>wait_pc := W_heap\<rparr>)
     | W_heap \<Rightarrow> (if Len (tasks g) = 0 then g\<lparr>wait_pc := W_cancel\<rparr>
                  else g\<lparr>wait_pc := W_loop\<rparr>)
     | W_cancel \<Rightarrow> g\<lparr>mctx_done := True, wait_pc := W_wg\<rparr>
     | W_wg \<Rightarrow> (if wg g = 0 then g\<lparr>wait_pc := W_ret None\<rparr> else g)
     | W_loop \<Rightarrow> (case ctx_err g of Some err \<Rightarrow> g\<lparr>wait_pc := W_ret (Some err)\<rparr>
                                   | None \<Rightarrow> g\<lparr>wait_pc := W_select\<rparr>)
     | W_select \<Rightarrow> (case ctx_err g of Some err \<Rightarrow> g\<lparr>wait_pc := W_ret (Some err)\<rparr>
                                     | None \<Rightarrow> g)
     | W_recv n \<Rightarrow> (case ctx_err g of Some err \<Rightarrow> g\<lparr>wait_pc := W_ret (Some err)\<rparr>
                                     | None \<Rightarrow> if n = 0 then g\<lparr>wait_pc := W_cancel\<rparr>
                                               else g\<lparr>wait_pc := W_loop\<rparr>)
     | W_ret r \<Rightarrow> g)"

text \<open>
  One move of \<^verbatim>\<open>monitor\<close> (lines 138-171); \<open>clock\<close> is what \<^verbatim>\<open>time.Now()\<close> returns if the
  move reads it. On return the deferred \<^verbatim>\<open>t.Stop()\<close> and \<^verbatim>\<open>g.wg.Done()\<close> of line 47 run.
  Executing the \<^verbatim>\<open>select\<close>, the monitor takes the \<^verbatim>\<open>ctx.Done()\<close> case if the derived context
  is done and parks otherwise (no sender ever waits on \<^verbatim>\<open>addC\<close>). Parked, it takes the
  \<^verbatim>\<open>ctx.Done()\<close> case by itself; the other two cases are the sender's (\<open>Schedule\<close>) and the
  timer's (\<open>Tick\<close> below).
\<close>

definition monitor :: "time \<Rightarrow> group \<Rightarrow> group" where
  "monitor clock g = (case mon_pc g of
       M_top \<Rightarrow> (if mctx_done g then g\<lparr>mon_pc := M_done, timer := Stopped, wg := wg g - 1\<rparr>
                 else g\<lparr>mon_pc := M_trig clock\<rparr>)
     | M_trig now \<Rightarrow>
         (let (g1, next) = trigger now g in
          if next \<noteq> 0 then g1\<lparr>timer := Armed (time_Sub next now), mon_pc := M_armed True\<rparr>
          else g1\<lparr>timer := Stopped, mon_pc := M_armed False\<rparr>)
     | M_armed tickC \<Rightarrow> (if mctx_done g then g\<lparr>mon_pc := M_top\<rparr>
                         else g\<lparr>mon_pc := M_select tickC\<rparr>)
     | M_select tickC \<Rightarrow> (if mctx_done g then g\<lparr>mon_pc := M_top\<rparr> else g)
     | M_done \<Rightarrow> g)"

text \<open>
  What can happen next: the caller's context is cancelled; the cancellation reaches the
  derived context; some goroutine calls \<^verbatim>\<open>Schedule\<close> or \<^verbatim>\<open>Delay\<close>; the goroutine in \<^verbatim>\<open>Wait\<close> or
  the monitor moves; the timer's channel delivers; a started body returns (its deferred
  \<^verbatim>\<open>g.wg.Done()\<close> runs). A move that is not possible in a state leaves the state as it is.
\<close>

datatype event =
    Cancel ctx_error
  | Propagate
  | CallSchedule time nat
  | CallDelay time duration nat
  | WaitStep
  | MonitorStep time
  | Tick
  | Finish task

fun step :: "event \<Rightarrow> group \<Rightarrow> group" where
  "step (Cancel err) g = (if ctx_err g = None then g\<lparr>ctx_err := Some err\<rparr> else g)"
| "step Propagate g = (if ctx_err g \<noteq> None then g\<lparr>mctx_done := True\<rparr> else g)"
| "step (CallSchedule when fn) g = Schedule when fn g"
| "step (CallDelay now delay fn) g = Delay now delay fn g"
| "step WaitStep g = Wait g"
| "step (MonitorStep clock) g = monitor clock g"
| "step Tick g = (if mon_pc g = M_select True then g\<lparr>mon_pc := M_top\<rparr> else g)"
| "step (Finish t) g =
     (if count_list (finished g) t < count_list (started g) t
      then g\<lparr>finished := finished g @ [t], wg := wg g - 1\<rparr> else g)"

definition run :: "event list \<Rightarrow> group \<Rightarrow> group" where
  "run evs g = foldl (\<lambda>s e. step e s) g evs"

section \<open>Predicates used in the proofs\<close>

definition up_inv :: "tasks \<Rightarrow> nat \<Rightarrow> bool" where
  "up_inv h j = ((\<forall>k < length h. k \<noteq> j \<longrightarrow> Deadline (h ! ((k - 1) div 2)) \<le> Deadline (h ! k)) \<and>
     (\<forall>k < length h. (k - 1) div 2 = j \<longrightarrow> Deadline (h ! ((j - 1) div 2)) \<le> Deadline (h ! k)))"

definition heap_upto :: "tasks \<Rightarrow> nat \<Rightarrow> bool" where
  "heap_upto h n = (\<forall>k < n. Deadline (h ! ((k - 1) div 2)) \<le> Deadline (h ! k))"

definition down_inv :: "tasks \<Rightarrow> nat \<Rightarrow> nat \<Rightarrow> bool" where
  "down_inv h i n =
    ((\<forall>k < n. 0 < k \<longrightarrow> (k - 1) div 2 \<noteq> i \<longrightarrow> Deadline (h ! ((k - 1) div 2)) \<le> Deadline (h ! k)) \<and>
     (\<forall>k < n. 0 < k \<longrightarrow> 0 < i \<longrightarrow> (k - 1) div 2 = i \<longrightarrow>
        Deadline (h ! ((i - 1) div 2)) \<le> Deadline (h ! k)))"

definition child :: "tasks \<Rightarrow> nat \<Rightarrow> nat \<Rightarrow> nat" where
  "child h i n = (if 2 * i + 1 + 1 < n \<and> Less h (2 * i + 1 + 1) (2 * i + 1) then 2 * i + 1 + 1 else 2 * i + 1)"

definition trigger_post :: "time \<Rightarrow> group \<Rightarrow> group \<Rightarrow> time \<Rightarrow> task list \<Rightarrow> bool" where
  "trigger_post now g g' next L =
    (started g' = started g @ L \<and> wg g' = wg g + int (length L) \<and>
     mset (tasks g) = mset L + mset (tasks g') \<and>
     (\<forall>t \<in> set L. Deadline t \<le> now) \<and> sorted (map Deadline L) \<and>
     heap_inv (tasks g') \<and> (\<forall>t \<in> set (tasks g'). now < Deadline t) \<and>
     (tasks g' = [] \<longrightarrow> next = 0) \<and>
     (tasks g' \<noteq> [] \<longrightarrow> next = Deadline (tasks g' ! 0)) \<and>
     ctx_err g' = ctx_err g \<and> mctx_done g' = mctx_done g \<and> wait_pc g' = wait_pc g \<and>
     mon_pc g' = mon_pc g \<and> timer g' = timer g \<and> accepted g' = accepted g \<and>
     finished g' = finished g)"

definition group_inv :: "group \<Rightarrow> bool" where
  "group_inv g =
    (heap_inv (tasks g) \<and>
     mset (tasks g) + mset (started g) = mset (accepted g) \<and>
     mset (finished g) \<subseteq># mset (started g) \<and>
     wg g = (if mon_pc g = M_done then 0 else 1) + int (length (started g)) - int (length (finished g)) \<and>
     (wait_pc g = W_ret None \<longrightarrow> wg g = 0) \<and>
     (\<forall>err. wait_pc g = W_ret (Some err) \<longrightarrow> ctx_err g = Some err) \<and>
     (mctx_done g \<longrightarrow> ctx_err g \<noteq> None \<or> wait_pc g = W_wg \<or> wait_pc g = W_ret None))"

fun is_sched :: "event \<Rightarrow> bool" where
  "is_sched (CallSchedule when fn) = True"
| "is_sched (CallDelay now delay fn) = True"
| "is_sched e = False"

fun schedule_then_wait :: "event list \<Rightarrow> bool" where
  "schedule_then_wait [] = True"
| "schedule_then_wait (e # es) =
     (if e = WaitStep then list_all (\<lambda>e'. \<not> is_sched e') es else schedule_then_wait es)"

definition drained :: "group \<Rightarrow> bool" where
  "drained g =
    (wait_pc g = W_cancel \<or> wait_pc g = W_wg \<or> wait_pc g = W_ret None \<or> wait_pc g = W_recv 0
       \<longrightarrow> tasks g = [])"

text \<open>
  A sequence of heap operations, as \<^verbatim>\<open>Schedule\<close> (push) and \<^verbatim>\<open>trigger\<close> (pop) issue them.
  Popping an empty heap panics: \<open>None\<close>.
\<close>

datatype heap_op = DoPush task | DoPop

fun apply_ops :: "heap_op list \<Rightarrow> tasks \<Rightarrow> tasks option" where
  "apply_ops [] h = Some h"
| "apply_ops (DoPush x # ops) h = apply_ops ops (heap_Push h x)"
| "apply_ops (DoPop # ops) h =
     (case heap_Pop h of None \<Rightarrow> None | Some (t, h') \<Rightarrow> apply_ops ops h')"

text \<open>
  The places where \<^verbatim>\<open>Wait\<close> has yet to look at the context: before line 91, executing
  or parked in the \<^verbatim>\<open>select\<close> of line 115, and before line 119.
\<close>

fun at_check :: "wait_pc \<Rightarrow> bool" where
  "at_check W_idle = True"
| "at_check W_loop = True"
| "at_check W_select = True"
| "at_check (W_recv n) = True"
| "at_check pc = False"

definition cancel_seen :: "ctx_error \<Rightarrow> group \<Rightarrow> bool" where
  "cancel_seen err g =
    (ctx_err g = Some err \<and> (at_check (wait_pc g) \<or> wait_pc g = W_ret (Some err)))"

text \<open>
  \<open>Delay\<close> as the specification words it: "equivalent to \<open>Schedule(now + duration, body)\<close>".
\<close>

definition Delay_spec :: "time \<Rightarrow> duration \<Rightarrow> nat \<Rightarrow> group \<Rightarrow> group" where
  "Delay_spec now duration body g = Schedule (now + duration) body g"

section \<open>Correctness of the heap operations\<close>

lemma parent_eq: "0 < k \<Longrightarrow> ((k - 1) div 2 = i) = (k = 2 * i + 1 \<or> k = 2 * i + 2)" for k i :: nat
  by presburger

lemma parent_le: "(k - 1) div 2 \<le> k" for k :: nat
  by presburger

lemma parent_fix: "(k - 1) div 2 = k \<Longrightarrow> k = 0" for k :: nat
  by presburger

lemma parent_less: "0 < k \<Longrightarrow> (k - 1) div 2 < k" for k :: nat
  by presburger

lemma nth_Swap:
  "i < length h \<Longrightarrow> j < length h \<Longrightarrow>
   Swap h i j ! k = (if k = j then h ! i else if k = i then h ! j else h ! k)"
  by (auto simp: Swap_def nth_list_update)

lemma mset_Swap: "i < length h \<Longrightarrow> j < length h \<Longrightarrow> mset (Swap h i j) = mset h"
  unfolding Swap_def by (metis mset_swap)

lemma up_inv_step:
  assumes j: "j < length h" and inv: "up_inv h j" and i: "i = (j - 1) div 2"
    and ne: "i \<noteq> j" and less: "Deadline (h ! j) < Deadline (h ! i)"
  shows "up_inv (Swap h i j) i"
proof -
  have il: "i < length h" using i j parent_le[of j] by simp
  have ij: "i < j" using i ne parent_le[of j] by simp
  have pi: "(i - 1) div 2 \<le> i" by (rule parent_le)
  have pil: "(i - 1) div 2 < length h" using pi il by simp
  have pinej: "(i - 1) div 2 \<noteq> j" using pi ij by simp
  have A: "\<And>k. k < length h \<Longrightarrow> k \<noteq> j \<Longrightarrow> Deadline (h ! ((k - 1) div 2)) \<le> Deadline (h ! k)"
    using inv by (simp add: up_inv_def)
  have B: "\<And>k. k < length h \<Longrightarrow> (k - 1) div 2 = j \<Longrightarrow> Deadline (h ! i) \<le> Deadline (h ! k)"
    using inv i by (simp add: up_inv_def)
  show ?thesis
    unfolding up_inv_def
  proof (intro conjI allI impI)
    fix k assume k: "k < length (Swap h i j)" and kne: "k \<noteq> i"
    then have kl: "k < length h" by simp
    have pkl: "(k - 1) div 2 < length h" using parent_le[of k] kl by simp
    show "Deadline (Swap h i j ! ((k - 1) div 2)) \<le> Deadline (Swap h i j ! k)"
    proof (cases "k = j")
      case True
      then show ?thesis using less i il j by (simp add: nth_Swap)
    next
      case False
      then have hk: "Swap h i j ! k = h ! k" using kne il j by (simp add: nth_Swap)
      show ?thesis
      proof (cases "(k - 1) div 2 = i")
        case True
        then have "Swap h i j ! ((k - 1) div 2) = h ! j" using il j ij by (simp add: nth_Swap)
        moreover have "Deadline (h ! i) \<le> Deadline (h ! k)" using A[OF kl False] True by simp
        ultimately show ?thesis using hk less by simp
      next
        case nI: False
        show ?thesis
        proof (cases "(k - 1) div 2 = j")
          case True
          then have "Swap h i j ! ((k - 1) div 2) = h ! i" using il j by (simp add: nth_Swap)
          then show ?thesis using hk B[OF kl True] by simp
        next
          case False
          then have "Swap h i j ! ((k - 1) div 2) = h ! ((k - 1) div 2)"
            using nI il j by (simp add: nth_Swap)
          then show ?thesis using hk A[OF kl \<open>k \<noteq> j\<close>] by simp
        qed
      qed
    qed
  next
    fix k assume k: "k < length (Swap h i j)" and pk: "(k - 1) div 2 = i"
    then have kl: "k < length h" by simp
    have top: "Deadline (Swap h i j ! ((i - 1) div 2)) \<le> Deadline (h ! i)"
    proof (cases "(i - 1) div 2 = i")
      case True
      then have "i = 0" using parent_less[of i] by (cases "i = 0") auto
      then show ?thesis using il j ij less by (simp add: nth_Swap)
    next
      case False
      then have "Swap h i j ! ((i - 1) div 2) = h ! ((i - 1) div 2)"
        using pinej il j by (simp add: nth_Swap)
      moreover have "Deadline (h ! ((i - 1) div 2)) \<le> Deadline (h ! i)"
        using A[OF il] ij by simp
      ultimately show ?thesis by simp
    qed
    show "Deadline (Swap h i j ! ((i - 1) div 2)) \<le> Deadline (Swap h i j ! k)"
    proof (cases "k = j")
      case True
      then show ?thesis using top il j by (simp add: nth_Swap)
    next
      case False
      show ?thesis
      proof (cases "k = i")
        case True
        then have "i = 0" using pk parent_less[of i] by (cases "i = 0") auto
        then show ?thesis using True by simp
      next
        case kni: False
        then have "Swap h i j ! k = h ! k" using False il j by (simp add: nth_Swap)
        moreover have "Deadline (h ! i) \<le> Deadline (h ! k)" using A[OF kl False] pk by simp
        ultimately show ?thesis using top by simp
      qed
    qed
  qed
qed

lemma up_inv_0: "up_inv h 0 \<Longrightarrow> heap_inv h"
  by (auto simp: up_inv_def heap_inv_alt)

lemma heap_inv_up:
  "j < length h \<Longrightarrow> up_inv h j \<Longrightarrow> heap_inv (up h j)"
proof (induction h j rule: up.induct)
  case (1 h j)
  let ?i = "(j - 1) div 2"
  show ?case
  proof (cases "?i = j")
    case True
    then have "j = 0" using parent_less[of j] by (cases "j = 0") auto
    then show ?thesis using "1.prems" True by (subst up.simps) (simp add: up_inv_0)
  next
    case ne: False
    show ?thesis
    proof (cases "Less h j ?i")
      case False
      then have "Deadline (h ! ?i) \<le> Deadline (h ! j)" by (simp add: Less_def)
      then have "heap_inv h" using "1.prems"(2) unfolding up_inv_def heap_inv_alt by metis
      then show ?thesis using False by (subst up.simps) simp
    next
      case True
      then have l: "Deadline (h ! j) < Deadline (h ! ?i)" by (simp add: Less_def)
      have s: "up_inv (Swap h ?i j) ?i"
        using up_inv_step[OF "1.prems"(1) "1.prems"(2) refl ne l] .
      have il: "?i < length (Swap h ?i j)" using parent_le[of j] "1.prems"(1) by simp
      have "heap_inv (up (Swap h ?i j) ?i)"
        using "1.IH"[OF refl _ il s] ne True by simp
      then show ?thesis using ne True by (subst up.simps) (simp add: Let_def)
    qed
  qed
qed

lemma mset_up: "j < length h \<Longrightarrow> mset (up h j) = mset h"
proof (induction h j rule: up.induct)
  case (1 h j)
  let ?i = "(j - 1) div 2"
  have il: "?i < length h" using parent_le[of j] "1.prems" by simp
  show ?case
  proof (cases "?i = j \<or> \<not> Less h j ?i")
    case True
    then show ?thesis by (subst up.simps) auto
  next
    case False
    then have "mset (up (Swap h ?i j) ?i) = mset (Swap h ?i j)"
      using "1.IH"[OF refl] il by simp
    then show ?thesis using False il "1.prems" by (subst up.simps) (simp add: Let_def mset_Swap)
  qed
qed

lemma heap_inv_Push: "heap_inv h \<Longrightarrow> heap_inv (heap_Push h x)"
proof -
  assume h: "heap_inv h"
  have "up_inv (h @ [x]) (length h)"
    unfolding up_inv_def
  proof (intro conjI allI impI)
    fix k assume "k < length (h @ [x])" "k \<noteq> length h"
    then have kl: "k < length h" by simp
    then have "(k - 1) div 2 < length h" using parent_le[of k] by simp
    then show "Deadline ((h @ [x]) ! ((k - 1) div 2)) \<le> Deadline ((h @ [x]) ! k)"
      using h kl by (simp add: nth_append heap_inv_alt)
  next
    fix k assume k: "k < length (h @ [x])" and pk: "(k - 1) div 2 = length h"
    then have kk: "k = length h" using parent_le[of k] by simp
    have "(k - 1) div 2 = k" by (rule trans[OF pk kk[symmetric]])
    then have "k = 0" by (rule parent_fix)
    then have "length h = 0" using kk by simp
    then show "Deadline ((h @ [x]) ! ((length h - 1) div 2)) \<le> Deadline ((h @ [x]) ! k)"
      using kk by simp
  qed
  then show ?thesis by (simp add: heap_Push_def Push_def Len_def heap_inv_up)
qed

lemma mset_heap_Push: "mset (heap_Push h x) = add_mset x (mset h)"
  by (simp add: heap_Push_def Push_def Len_def mset_up)

lemma down_inv_stop:
  assumes inv: "down_inv h i n"
    and ch: "\<And>k. k < n \<Longrightarrow> 0 < k \<Longrightarrow> (k - 1) div 2 = i \<Longrightarrow> Deadline (h ! i) \<le> Deadline (h ! k)"
  shows "heap_upto h n"
  unfolding heap_upto_def
proof (intro allI impI)
  fix k assume k: "k < n"
  show "Deadline (h ! ((k - 1) div 2)) \<le> Deadline (h ! k)"
  proof (cases "k = 0")
    case True then show ?thesis by simp
  next
    case False
    then have k0: "0 < k" by simp
    show ?thesis
    proof (cases "(k - 1) div 2 = i")
      case True
      then show ?thesis using ch[OF k k0 True] by simp
    next
      case False
      then show ?thesis using inv k k0 by (simp add: down_inv_def)
    qed
  qed
qed

lemma down_inv_step:
  assumes n: "n \<le> length h" and inv: "down_inv h i n"
    and j: "j = 2 * i + 1 \<or> j = 2 * i + 2" and jn: "j < n"
    and jmin: "\<And>k. k < n \<Longrightarrow> 0 < k \<Longrightarrow> (k - 1) div 2 = i \<Longrightarrow> Deadline (h ! j) \<le> Deadline (h ! k)"
    and less: "Deadline (h ! j) < Deadline (h ! i)"
  shows "down_inv (Swap h i j) j n"
proof -
  have ij: "i < j" using j by auto
  have jl: "j < length h" using jn n by simp
  have il: "i < length h" using ij jl by simp
  have pj: "(j - 1) div 2 = i" using j by auto
  have j0: "0 < j" using ij by simp
  have A: "\<And>k. k < n \<Longrightarrow> 0 < k \<Longrightarrow> (k - 1) div 2 \<noteq> i \<Longrightarrow>
      Deadline (h ! ((k - 1) div 2)) \<le> Deadline (h ! k)"
    using inv by (simp add: down_inv_def)
  have B: "\<And>k. k < n \<Longrightarrow> 0 < k \<Longrightarrow> 0 < i \<Longrightarrow> (k - 1) div 2 = i \<Longrightarrow>
      Deadline (h ! ((i - 1) div 2)) \<le> Deadline (h ! k)"
    using inv by (simp add: down_inv_def)
  show ?thesis
    unfolding down_inv_def
  proof (intro conjI allI impI)
    fix k assume k: "k < n" and k0: "0 < k" and pk: "(k - 1) div 2 \<noteq> j"
    have pkk: "(k - 1) div 2 < k" using k0 by (rule parent_less)
    show "Deadline (Swap h i j ! ((k - 1) div 2)) \<le> Deadline (Swap h i j ! k)"
    proof (cases "(k - 1) div 2 = i")
      case True
      then have p: "Swap h i j ! ((k - 1) div 2) = h ! j" using il jl ij by (simp add: nth_Swap)
      have kni: "k \<noteq> i" using True pkk by simp
      show ?thesis
      proof (cases "k = j")
        case True
        then show ?thesis using p less il jl by (simp add: nth_Swap)
      next
        case False
        then have "Swap h i j ! k = h ! k" using kni il jl by (simp add: nth_Swap)
        then show ?thesis using p jmin[OF k k0 True] by simp
      qed
    next
      case False
      then have p: "Swap h i j ! ((k - 1) div 2) = h ! ((k - 1) div 2)"
        using pk il jl by (simp add: nth_Swap)
      have knj: "k \<noteq> j" using False pj by auto
      show ?thesis
      proof (cases "k = i")
        case True
        then have i0: "0 < i" using k0 by simp
        have "Swap h i j ! k = h ! j" using True il jl ij by (simp add: nth_Swap)
        moreover have "Deadline (h ! ((i - 1) div 2)) \<le> Deadline (h ! j)"
          using B[OF jn j0 i0 pj] .
        ultimately show ?thesis using p True by simp
      next
        case kni: False
        then have "Swap h i j ! k = h ! k" using knj il jl by (simp add: nth_Swap)
        then show ?thesis using p A[OF k k0 False] by simp
      qed
    qed
  next
    fix k assume k: "k < n" and k0: "0 < k" and pk: "(k - 1) div 2 = j"
    have pkk: "(k - 1) div 2 < k" using k0 by (rule parent_less)
    have "k \<noteq> i" "k \<noteq> j" using pk pkk ij by auto
    then have "Swap h i j ! k = h ! k" using il jl by (simp add: nth_Swap)
    moreover have "Swap h i j ! ((j - 1) div 2) = h ! j" using pj il jl ij by (simp add: nth_Swap)
    moreover have "Deadline (h ! j) \<le> Deadline (h ! k)"
      using A[OF k k0] pk ij by simp
    ultimately show "Deadline (Swap h i j ! ((j - 1) div 2)) \<le> Deadline (Swap h i j ! k)"
      by simp
  qed
qed

lemma child_cases: "child h i n = 2 * i + 1 \<or> child h i n = 2 * i + 2"
  by (simp add: child_def)

lemma child_less: "2 * i + 1 < n \<Longrightarrow> child h i n < n"
  by (simp add: child_def)

lemma child_gt: "i < child h i n"
  by (simp add: child_def)

lemma child_min:
  assumes "k < n" "0 < k" "(k - 1) div 2 = i"
  shows "Deadline (h ! child h i n) \<le> Deadline (h ! k)"
proof -
  have "k = 2 * i + 1 \<or> k = 2 * i + 2" using parent_eq[of k i] assms by simp
  then show ?thesis using assms(1) by (auto simp: child_def Less_def)
qed

lemma down_stop: "n \<le> 2 * i + 1 \<or> \<not> Less h (child h i n) i \<Longrightarrow> down h i n = h"
  by (subst down.simps) (auto simp: Let_def child_def)

lemma down_rec:
  "2 * i + 1 < n \<Longrightarrow> Less h (child h i n) i \<Longrightarrow>
   down h i n = down (Swap h i (child h i n)) (child h i n) n"
  by (subst down.simps) (auto simp: Let_def child_def)

lemma heap_upto_down:
  "n \<le> length h \<Longrightarrow> down_inv h i n \<Longrightarrow> heap_upto (down h i n) n"
proof (induction "n - i" arbitrary: h i rule: less_induct)
  case less
  let ?j = "child h i n"
  show ?case
  proof (cases "n \<le> 2 * i + 1")
    case True
    have "heap_upto h n"
    proof (rule down_inv_stop[OF less.prems(2)])
      fix k assume "k < n" "0 < k" "(k - 1) div 2 = i"
      then have False using True parent_eq[of k i] by auto
      then show "Deadline (h ! i) \<le> Deadline (h ! k)" ..
    qed
    then show ?thesis using True by (simp add: down_stop)
  next
    case False
    then have inr: "2 * i + 1 < n" by simp
    have jn: "?j < n" using inr by (rule child_less)
    show ?thesis
    proof (cases "Less h ?j i")
      case False
      have "heap_upto h n"
      proof (rule down_inv_stop[OF less.prems(2)])
        fix k assume "k < n" "0 < k" "(k - 1) div 2 = i"
        then have "Deadline (h ! ?j) \<le> Deadline (h ! k)" by (rule child_min)
        moreover have "Deadline (h ! i) \<le> Deadline (h ! ?j)" using False by (simp add: Less_def)
        ultimately show "Deadline (h ! i) \<le> Deadline (h ! k)" by simp
      qed
      then show ?thesis using False by (simp add: down_stop)
    next
      case True
      then have lt: "Deadline (h ! ?j) < Deadline (h ! i)" by (simp add: Less_def)
      have s: "down_inv (Swap h i ?j) ?j n"
        by (rule down_inv_step[OF less.prems(1) less.prems(2) child_cases jn child_min lt])
      have "n - ?j < n - i" using jn child_gt[of i h n] by simp
      then have "heap_upto (down (Swap h i ?j) ?j n) n"
        using less.hyps[of ?j "Swap h i ?j"] less.prems(1) s by simp
      then show ?thesis using inr True by (simp add: down_rec)
    qed
  qed
qed

lemma down_nth_beyond: "n \<le> length h \<Longrightarrow> n \<le> m \<Longrightarrow> down h i n ! m = h ! m"
proof (induction "n - i" arbitrary: h i rule: less_induct)
  case less
  let ?j = "child h i n"
  show ?case
  proof (cases "n \<le> 2 * i + 1 \<or> \<not> Less h ?j i")
    case True
    then show ?thesis by (simp add: down_stop)
  next
    case False
    then have inr: "2 * i + 1 < n" and l: "Less h ?j i" by simp_all
    have jn: "?j < n" using inr by (rule child_less)
    have ij: "i < ?j" by (rule child_gt)
    have "n - ?j < n - i" using jn ij by simp
    then have "down (Swap h i ?j) ?j n ! m = Swap h i ?j ! m"
      using less.hyps[of ?j "Swap h i ?j"] less.prems by simp
    also have "\<dots> = h ! m" using jn ij less.prems by (simp add: nth_Swap)
    finally show ?thesis using inr l by (simp add: down_rec)
  qed
qed

lemma mset_down: "n \<le> length h \<Longrightarrow> mset (down h i n) = mset h"
proof (induction "n - i" arbitrary: h i rule: less_induct)
  case less
  let ?j = "child h i n"
  show ?case
  proof (cases "n \<le> 2 * i + 1 \<or> \<not> Less h ?j i")
    case True
    then show ?thesis by (simp add: down_stop)
  next
    case False
    then have inr: "2 * i + 1 < n" and l: "Less h ?j i" by simp_all
    have jn: "?j < n" using inr by (rule child_less)
    have ij: "i < ?j" by (rule child_gt)
    have "n - ?j < n - i" using jn ij by simp
    then have "mset (down (Swap h i ?j) ?j n) = mset (Swap h i ?j)"
      using less.hyps[of ?j "Swap h i ?j"] less.prems by simp
    also have "\<dots> = mset h" using jn ij less.prems by (simp add: mset_Swap)
    finally show ?thesis using inr l by (simp add: down_rec)
  qed
qed

lemma heap_root_min: "heap_inv h \<Longrightarrow> i < length h \<Longrightarrow> Deadline (h ! 0) \<le> Deadline (h ! i)"
proof (induction i rule: less_induct)
  case (less i)
  show ?case
  proof (cases "i = 0")
    case True then show ?thesis by simp
  next
    case False
    then have p: "(i - 1) div 2 < i" by (simp add: parent_less)
    then have "Deadline (h ! 0) \<le> Deadline (h ! ((i - 1) div 2))"
      using less by simp
    moreover have "Deadline (h ! ((i - 1) div 2)) \<le> Deadline (h ! i)"
      using less.prems by (simp add: heap_inv_alt)
    ultimately show ?thesis by simp
  qed
qed

lemma heap_Pop_Some:
  assumes "h \<noteq> []"
  shows "heap_Pop h = Some (h ! 0, butlast (down (Swap h 0 (length h - 1)) 0 (length h - 1)))"
proof -
  let ?n = "length h - 1"
  let ?d = "down (Swap h 0 ?n) 0 ?n"
  have nl: "?n < length h" using assms by (cases h) auto
  have "?d \<noteq> []" using assms by (metis length_down length_Swap length_0_conv)
  moreover have "last ?d = ?d ! ?n" using \<open>?d \<noteq> []\<close> by (simp add: last_conv_nth)
  moreover have "?d ! ?n = Swap h 0 ?n ! ?n" by (rule down_nth_beyond) simp_all
  moreover have "Swap h 0 ?n ! ?n = h ! 0" using nl assms by (simp add: nth_Swap)
  ultimately show ?thesis using assms by (simp add: heap_Pop_def Pop_def Len_def Let_def)
qed

lemma heap_inv_Pop:
  assumes inv: "heap_inv h" and pop: "heap_Pop h = Some (t, h')"
  shows "heap_inv h'"
proof -
  have ne: "h \<noteq> []" using pop by (auto simp: heap_Pop_def Len_def split: if_splits)
  let ?n = "length h - 1"
  let ?s = "Swap h 0 ?n"
  let ?d = "down ?s 0 ?n"
  have nl: "?n < length h" using ne by (cases h) auto
  have h': "h' = butlast ?d" using pop heap_Pop_Some[OF ne] by simp
  have "down_inv ?s 0 ?n"
    unfolding down_inv_def
  proof (intro conjI allI impI)
    fix k assume k: "k < ?n" and k0: "0 < k" and pk: "(k - 1) div 2 \<noteq> 0"
    have "(k - 1) div 2 < k" using k0 by (rule parent_less)
    then have "?s ! ((k - 1) div 2) = h ! ((k - 1) div 2)" "?s ! k = h ! k"
      using k k0 pk nl ne by (simp_all add: nth_Swap)
    then show "Deadline (?s ! ((k - 1) div 2)) \<le> Deadline (?s ! k)"
      using inv k by (simp add: heap_inv_alt)
  qed simp
  then have "heap_upto ?d ?n" by (intro heap_upto_down) simp
  then show ?thesis
    unfolding h' heap_inv_alt heap_upto_def
    using parent_le by (auto simp: nth_butlast intro: le_less_trans)
qed

lemma mset_heap_Pop:
  assumes pop: "heap_Pop h = Some (t, h')"
  shows "mset h = add_mset t (mset h')"
proof -
  have ne: "h \<noteq> []" using pop by (auto simp: heap_Pop_def Len_def split: if_splits)
  let ?n = "length h - 1"
  let ?d = "down (Swap h 0 ?n) 0 ?n"
  have nl: "?n < length h" using ne by (cases h) auto
  have dne: "?d \<noteq> []" using ne by (metis length_down length_Swap length_0_conv)
  have "Pop ?d = Some (t, h')" using pop ne by (simp add: heap_Pop_def Len_def Let_def)
  then have "t = last ?d" "h' = butlast ?d" using dne by (simp_all add: Pop_def)
  then have "add_mset t (mset h') = mset (butlast ?d @ [last ?d])" by simp
  also have "\<dots> = mset ?d" using dne by simp
  also have "\<dots> = mset h" using nl ne by (simp add: mset_down mset_Swap)
  finally show ?thesis by simp
qed

lemma heap_Pop_min:
  assumes inv: "heap_inv h" and pop: "heap_Pop h = Some (t, h')"
  shows "t = h ! 0 \<and> (\<forall>x \<in> set h. Deadline t \<le> Deadline x) \<and> length h = Suc (length h')"
proof -
  have ne: "h \<noteq> []" using pop by (auto simp: heap_Pop_def Len_def split: if_splits)
  have t: "t = h ! 0" and h': "h' = butlast (down (Swap h 0 (length h - 1)) 0 (length h - 1))"
    using pop heap_Pop_Some[OF ne] by simp_all
  have "\<forall>x \<in> set h. Deadline (h ! 0) \<le> Deadline x"
    using heap_root_min[OF inv] by (auto simp: in_set_conv_nth)
  moreover have "length h = Suc (length h')" using h' ne by (cases h) auto
  ultimately show ?thesis using t by simp
qed


lemma trigger_loop_stop_empty: "tasks g = [] \<Longrightarrow> trigger_loop now g = (g, 0)"
  by (subst trigger_loop.simps) (simp add: Len_def)

lemma trigger_loop_stop_later:
  "tasks g \<noteq> [] \<Longrightarrow> now < Deadline (tasks g ! 0) \<Longrightarrow>
   trigger_loop now g = (g, Deadline (tasks g ! 0))"
  by (subst trigger_loop.simps) (simp add: Len_def)

lemma trigger_loop_pop:
  "tasks g \<noteq> [] \<Longrightarrow> Deadline (tasks g ! 0) \<le> now \<Longrightarrow> heap_Pop (tasks g) = Some (t, h') \<Longrightarrow>
   trigger_loop now g =
     trigger_loop now (g\<lparr>tasks := h', wg := wg g + 1, started := started g @ [t]\<rparr>)"
  by (subst trigger_loop.simps) (simp add: Len_def)

lemma trigger_loop_post:
  "heap_inv (tasks g) \<Longrightarrow> trigger_loop now g = (g', next) \<Longrightarrow> \<exists>L. trigger_post now g g' next L"
proof (induction now g arbitrary: g' "next" rule: trigger_loop.induct)
  case (1 now g)
  show ?case
  proof (cases "tasks g = []")
    case True
    then have "g' = g" "next = 0" using "1.prems"(2) by (simp_all add: trigger_loop_stop_empty)
    then have "trigger_post now g g' next []" using True by (simp add: trigger_post_def heap_inv_alt)
    then show ?thesis ..
  next
    case ne: False
    show ?thesis
    proof (cases "now < Deadline (tasks g ! 0)")
      case True
      then have e: "g' = g" "next = Deadline (tasks g ! 0)"
        using "1.prems"(2) ne by (auto simp: trigger_loop_stop_later)
      have "\<forall>t \<in> set (tasks g). now < Deadline t"
      proof
        fix t assume "t \<in> set (tasks g)"
        then obtain i where "i < length (tasks g)" "tasks g ! i = t" by (auto simp: in_set_conv_nth)
        then have "Deadline (tasks g ! 0) \<le> Deadline t" using heap_root_min[OF "1.prems"(1)] by auto
        then show "now < Deadline t" using True by simp
      qed
      then have "trigger_post now g g' next []" using e ne "1.prems"(1) by (simp add: trigger_post_def)
      then show ?thesis ..
    next
      case False
      then have le: "Deadline (tasks g ! 0) \<le> now" by simp
      obtain t h' where pop: "heap_Pop (tasks g) = Some (t, h')"
        using ne heap_Pop_None[of "tasks g"] by (cases "heap_Pop (tasks g)") auto
      let ?g1 = "g\<lparr>tasks := h', wg := wg g + 1, started := started g @ [t]\<rparr>"
      have inv1: "heap_inv (tasks ?g1)" using heap_inv_Pop[OF "1.prems"(1) pop] by simp
      have rec: "trigger_loop now ?g1 = (g', next)"
        using "1.prems"(2) trigger_loop_pop[OF ne le pop] by simp
      have lp: "0 < Len (tasks g)" using ne by (simp add: Len_def)
      have "\<exists>L. trigger_post now ?g1 g' next L"
        by (rule "1.IH"[OF lp refl False pop refl inv1 rec])
      then obtain L where L: "trigger_post now ?g1 g' next L" ..
      have tmin: "t = tasks g ! 0" "\<forall>x \<in> set (tasks g). Deadline t \<le> Deadline x"
        using heap_Pop_min[OF "1.prems"(1) pop] by blast+
      have ms: "mset (tasks g) = add_mset t (mset h')" by (rule mset_heap_Pop[OF pop])
      have sub: "set L \<subseteq> set (tasks g)"
      proof -
        have "mset L \<subseteq># mset (tasks g)" using L ms by (simp add: trigger_post_def)
        then show ?thesis using set_mset_mono by fastforce
      qed
      have "trigger_post now g g' next (t # L)"
        using L tmin le ms sub unfolding trigger_post_def by auto
      then show ?thesis ..
    qed
  qed
qed

lemma run_Nil: "run [] g = g"
  by (simp add: run_def)

lemma run_Cons: "run (e # es) g = run es (step e g)"
  by (simp add: run_def)

lemma run_append: "run (es @ es') g = run es' (run es g)"
  by (simp add: run_def)

lemma group_inv_New: "group_inv (New ctx)"
  by (simp add: group_inv_def New_def heap_inv_alt)

lemma finished_le_started:
  "mset (finished g) \<subseteq># mset (started g) \<Longrightarrow> length (finished g) \<le> length (started g)"
  using size_mset_mono by fastforce

lemma finished_eq_started:
  assumes "mset (finished g) \<subseteq># mset (started g)" "length (finished g) = length (started g)"
  shows "mset (finished g) = mset (started g)"
proof (rule ccontr)
  assume "mset (finished g) \<noteq> mset (started g)"
  then have "mset (finished g) \<subset># mset (started g)" using assms(1) by (simp add: subset_mset.less_le)
  then have "size (mset (finished g)) < size (mset (started g))" by (rule mset_subset_size)
  then show False using assms(2) by simp
qed

lemma group_inv_Schedule: "group_inv g \<Longrightarrow> group_inv (Schedule when fn g)"
  by (auto simp: group_inv_def Schedule_def Let_def heap_inv_Push mset_heap_Push split: mon_pc.splits)

lemma group_inv_Wait: "group_inv g \<Longrightarrow> group_inv (Wait g)"
  by (auto simp: group_inv_def Wait_def split: wait_pc.splits option.splits)

lemma trigger_post_ex:
  assumes "heap_inv (tasks g)" "trigger now g = (g', next)"
  shows "\<exists>g1 L. trigger_post now g g1 next L \<and>
     g' = (if wait_pc g = W_select then g1\<lparr>wait_pc := W_recv (length (tasks g1))\<rparr> else g1)"
proof -
  obtain g1 n1 where l: "trigger_loop now g = (g1, n1)" by (cases "trigger_loop now g")
  obtain L where L: "trigger_post now g g1 n1 L" using trigger_loop_post[OF assms(1) l] ..
  have "n1 = next" "g' = (if wait_pc g1 = W_select then g1\<lparr>wait_pc := W_recv (length (tasks g1))\<rparr> else g1)"
    using assms(2) l by (auto simp: trigger_def Len_def)
  moreover have "wait_pc g1 = wait_pc g" using L by (simp add: trigger_post_def)
  ultimately show ?thesis using L by auto
qed

lemma group_inv_trigger:
  assumes inv: "group_inv g" and tr: "trigger now g = (g', next)" and nd: "mon_pc g \<noteq> M_done"
  shows "group_inv (g'\<lparr>timer := tm, mon_pc := M_armed b\<rparr>)"
proof -
  obtain g1 L where L: "trigger_post now g g1 next L"
    and g': "g' = (if wait_pc g = W_select then g1\<lparr>wait_pc := W_recv (length (tasks g1))\<rparr> else g1)"
    using trigger_post_ex[OF _ tr] inv by (auto simp: group_inv_def)
  have le: "length (finished g) \<le> length (started g)"
    using inv by (simp add: group_inv_def finished_le_started)
  have sub: "mset (finished g1) \<subseteq># mset (started g1)"
  proof -
    have "mset (finished g) \<subseteq># mset (started g) + mset L" using inv
      by (simp add: group_inv_def subset_mset.add_increasing2)
    then show ?thesis using L by (simp add: trigger_post_def)
  qed
  have ms: "mset (tasks g1) + mset (started g1) = mset (accepted g1)"
    using inv L by (simp add: group_inv_def trigger_post_def ac_simps)
  show ?thesis
    using inv L le sub ms nd unfolding g' group_inv_def trigger_post_def
    by (auto split: if_splits)
qed

lemma group_inv_monitor: "group_inv g \<Longrightarrow> group_inv (monitor clock g)"
proof (cases "mon_pc g")
  case M_top
  assume inv: "group_inv g"
  have "length (finished g) \<le> length (started g)"
    using inv by (simp add: group_inv_def finished_le_started)
  then show ?thesis using inv M_top by (auto simp: monitor_def group_inv_def)
next
  case (M_trig now)
  assume inv: "group_inv g"
  obtain g' nx where tr: "trigger now g = (g', nx)" by (cases "trigger now g")
  have "mon_pc g \<noteq> M_done" using M_trig by simp
  then show ?thesis using M_trig tr group_inv_trigger[OF inv tr] by (simp add: monitor_def)
next
  case (M_armed b)
  assume "group_inv g"
  then show ?thesis using M_armed by (auto simp: monitor_def group_inv_def)
next
  case (M_select b)
  assume "group_inv g"
  then show ?thesis using M_select by (auto simp: monitor_def group_inv_def)
next
  case M_done
  assume "group_inv g"
  then show ?thesis using M_done by (simp add: monitor_def)
qed

lemma group_inv_Finish: "group_inv g \<Longrightarrow> group_inv (step (Finish t) g)"
proof (cases "count_list (finished g) t < count_list (started g) t")
  case False
  assume "group_inv g"
  then show ?thesis using False by simp
next
  case True
  assume inv: "group_inv g"
  have sub: "mset (finished g) \<subseteq># mset (started g)" using inv by (simp add: group_inv_def)
  have sub': "add_mset t (mset (finished g)) \<subseteq># mset (started g)"
    unfolding subseteq_mset_def
  proof
    fix a
    show "count (add_mset t (mset (finished g))) a \<le> count (mset (started g)) a"
      using True sub by (cases "a = t") (auto simp: count_mset subseteq_mset_def)
  qed
  have ne: "mset (finished g) \<noteq> mset (started g)" using True by (metis count_mset less_irrefl)
  then have "length (finished g) \<noteq> length (started g)" using finished_eq_started[OF sub] by blast
  then have lt: "length (finished g) < length (started g)" using finished_le_started[OF sub] by simp
  show ?thesis using inv True sub' lt by (auto simp: group_inv_def)
qed

lemma group_inv_step: "group_inv g \<Longrightarrow> group_inv (step e g)"
proof (cases e)
  case (Finish t)
  assume "group_inv g"
  then show ?thesis unfolding Finish by (rule group_inv_Finish)
qed (auto simp: group_inv_Schedule Delay_def group_inv_Wait group_inv_monitor, auto simp: group_inv_def)

lemma group_inv_run: "group_inv g \<Longrightarrow> group_inv (run evs g)"
  by (induction evs arbitrary: g) (simp_all add: run_Nil run_Cons group_inv_step)

lemma drained_step: "group_inv g \<Longrightarrow> drained g \<Longrightarrow> \<not> is_sched e \<Longrightarrow> drained (step e g)"
proof (cases e)
  case (MonitorStep clock)
  assume inv: "group_inv g" and d: "drained g"
  show ?thesis
  proof (cases "mon_pc g")
    case (M_trig now)
    obtain g' nx where tr: "trigger now g = (g', nx)" by (cases "trigger now g")
    obtain g1 L where L: "trigger_post now g g1 nx L"
      and g': "g' = (if wait_pc g = W_select then g1\<lparr>wait_pc := W_recv (length (tasks g1))\<rparr> else g1)"
      using trigger_post_ex[OF _ tr] inv by (auto simp: group_inv_def)
    have e: "tasks g = [] \<Longrightarrow> tasks g1 = []" using L by (simp add: trigger_post_def)
    have "drained g'" using d L e unfolding g' drained_def trigger_post_def by (auto split: if_splits)
    then show ?thesis using MonitorStep M_trig tr by (simp add: monitor_def drained_def)
  qed (use d MonitorStep in \<open>auto simp: monitor_def drained_def\<close>)
next
  case WaitStep
  assume "drained g"
  then show ?thesis using WaitStep
    by (auto simp: Wait_def drained_def Len_def split: wait_pc.splits option.splits)
qed (auto simp: drained_def)

lemma drained_run:
  "group_inv g \<Longrightarrow> drained g \<Longrightarrow> list_all (\<lambda>e. \<not> is_sched e) evs \<Longrightarrow> drained (run evs g)"
  by (induction evs arbitrary: g) (simp_all add: run_Nil run_Cons drained_step group_inv_step)

lemma wait_idle_step:
  assumes inv: "group_inv g" and w: "wait_pc g = W_idle" and e: "e \<noteq> WaitStep"
  shows "wait_pc (step e g) = W_idle"
proof (cases e)
  case (MonitorStep clock)
  show ?thesis
  proof (cases "mon_pc g")
    case (M_trig now)
    obtain g' nx where tr: "trigger now g = (g', nx)" by (cases "trigger now g")
    obtain g1 L where L: "trigger_post now g g1 nx L"
      and g': "g' = (if wait_pc g = W_select then g1\<lparr>wait_pc := W_recv (length (tasks g1))\<rparr> else g1)"
      using trigger_post_ex[OF _ tr] inv by (auto simp: group_inv_def)
    have "wait_pc g' = W_idle" using w L unfolding g' by (simp add: trigger_post_def)
    then show ?thesis using MonitorStep M_trig tr by (simp add: monitor_def)
  qed (use w MonitorStep in \<open>auto simp: monitor_def\<close>)
qed (use w e in \<open>auto simp: Schedule_def Delay_def Let_def split: mon_pc.splits\<close>)

lemma drained_after_wait:
  assumes inv: "group_inv g" and w: "wait_pc g = W_idle" and c: "schedule_then_wait evs"
  shows "drained (run evs g)"
  using assms
proof (induction evs arbitrary: g)
  case Nil
  then show ?case by (simp add: run_Nil drained_def)
next
  case (Cons e es)
  show ?case
  proof (cases "e = WaitStep")
    case True
    have d: "drained (step e g)" using True Cons.prems(2)
      by (auto simp: Wait_def drained_def split: option.splits)
    have i: "group_inv (step e g)" using Cons.prems(1) by (rule group_inv_step)
    have l: "list_all (\<lambda>e'. \<not> is_sched e') es" using True Cons.prems(3) by simp
    show ?thesis using drained_run[OF i d l] by (simp add: run_Cons)
  next
    case False
    then show ?thesis
      using Cons.IH[OF group_inv_step wait_idle_step] Cons.prems by (simp add: run_Cons)
  qed
qed

section \<open>The heap invariant and trigger\<close>

lemma heap_root_least: "heap_inv h \<Longrightarrow> y \<in> set h \<Longrightarrow> Deadline (h ! 0) \<le> Deadline y"
  using heap_root_min by (auto simp: in_set_conv_nth)

lemma heap_inv_apply_ops: "heap_inv h \<Longrightarrow> apply_ops ops h = Some h' \<Longrightarrow> heap_inv h'"
proof (induction ops h rule: apply_ops.induct)
  case (1 h)
  then show ?case by simp
next
  case (2 x ops h)
  then show ?case by (simp add: heap_inv_Push)
next
  case (3 ops h)
  then show ?case by (auto split: option.splits dest: heap_inv_Pop)
qed

lemma heap_inv_Nil: "heap_inv []"
  by (simp add: heap_inv_def)

text \<open>
  C6: every \<open>heap.Push\<close> and every \<open>heap.Pop\<close> keeps the min-heap invariant, so after any
  sequence of pushes and pops that starts from the empty heap, and in every state a Group
  can reach, the root of the heap holds the smallest deadline of all tasks in it.
\<close>

theorem heap_invariant_preserved:
  "(heap_inv h \<longrightarrow> heap_inv (heap_Push h x)) \<and>
   (heap_inv h \<and> heap_Pop h = Some (t, h') \<longrightarrow> heap_inv h') \<and>
   (apply_ops ops [] = Some q \<longrightarrow> heap_inv q \<and> (\<forall>y \<in> set q. Deadline (q ! 0) \<le> Deadline y)) \<and>
   heap_inv (tasks (run evs (New ctx))) \<and>
   (\<forall>y \<in> set (tasks (run evs (New ctx))).
      Deadline (tasks (run evs (New ctx)) ! 0) \<le> Deadline y)"
proof (intro conjI impI ballI)
  assume "heap_inv h"
  then show "heap_inv (heap_Push h x)" by (rule heap_inv_Push)
next
  assume "heap_inv h \<and> heap_Pop h = Some (t, h')"
  then show "heap_inv h'" using heap_inv_Pop by blast
next
  assume "apply_ops ops [] = Some q"
  then show "heap_inv q" using heap_inv_apply_ops[OF heap_inv_Nil] by blast
next
  fix y assume "apply_ops ops [] = Some q" "y \<in> set q"
  then show "Deadline (q ! 0) \<le> Deadline y"
    using heap_inv_apply_ops[OF heap_inv_Nil] heap_root_least by blast
next
  show i: "heap_inv (tasks (run evs (New ctx)))"
    using group_inv_run[OF group_inv_New] by (simp add: group_inv_def)
  fix y assume "y \<in> set (tasks (run evs (New ctx)))"
  then show "Deadline (tasks (run evs (New ctx)) ! 0) \<le> Deadline y"
    using i by (rule heap_root_least[rotated])
qed

theorem heap_invariant_preserved_witness:
  "heap_inv [\<lparr>Deadline = 3, Call = 2\<rparr>, \<lparr>Deadline = 5, Call = 1\<rparr>] \<and>
   heap_inv (heap_Push [\<lparr>Deadline = 3, Call = 2\<rparr>, \<lparr>Deadline = 5, Call = 1\<rparr>] \<lparr>Deadline = 1, Call = 7\<rparr>) \<and>
   heap_Pop [\<lparr>Deadline = 3, Call = 2\<rparr>, \<lparr>Deadline = 5, Call = 1\<rparr>] =
     Some (\<lparr>Deadline = 3, Call = 2\<rparr>, [\<lparr>Deadline = 5, Call = 1\<rparr>]) \<and>
   heap_inv [\<lparr>Deadline = 5, Call = 1\<rparr>] \<and>
   apply_ops [DoPush \<lparr>Deadline = 5, Call = 1\<rparr>, DoPush \<lparr>Deadline = 3, Call = 2\<rparr>,
              DoPush \<lparr>Deadline = 9, Call = 3\<rparr>, DoPop, DoPush \<lparr>Deadline = 1, Call = 4\<rparr>] [] =
     Some [\<lparr>Deadline = 1, Call = 4\<rparr>, \<lparr>Deadline = 9, Call = 3\<rparr>, \<lparr>Deadline = 5, Call = 1\<rparr>] \<and>
   heap_inv [\<lparr>Deadline = 1, Call = 4\<rparr>, \<lparr>Deadline = 9, Call = 3\<rparr>, \<lparr>Deadline = 5, Call = 1\<rparr>] \<and>
   list_all (\<lambda>y. 1 \<le> Deadline y)
     [\<lparr>Deadline = 1, Call = 4\<rparr>, \<lparr>Deadline = 9, Call = 3\<rparr>, \<lparr>Deadline = 5, Call = 1\<rparr>] \<and>
   tasks (run [CallSchedule 5 1, CallSchedule 3 2, CallSchedule 9 3, MonitorStep 4, MonitorStep 4]
            (New None)) = [\<lparr>Deadline = 5, Call = 1\<rparr>, \<lparr>Deadline = 9, Call = 3\<rparr>]"
proof -
  let ?h = "[\<lparr>Deadline = 3, Call = 2\<rparr>, \<lparr>Deadline = 5, Call = 1\<rparr>]"
  let ?ops = "[DoPush \<lparr>Deadline = 5, Call = 1\<rparr>, DoPush \<lparr>Deadline = 3, Call = 2\<rparr>,
              DoPush \<lparr>Deadline = 9, Call = 3\<rparr>, DoPop, DoPush \<lparr>Deadline = 1, Call = 4\<rparr>]"
  let ?q = "[\<lparr>Deadline = 1, Call = 4\<rparr>, \<lparr>Deadline = 9, Call = 3\<rparr>, \<lparr>Deadline = 5, Call = 1\<rparr>]"
  have a: "heap_inv ?h" by code_simp
  have b: "heap_Pop ?h = Some (\<lparr>Deadline = 3, Call = 2\<rparr>, [\<lparr>Deadline = 5, Call = 1\<rparr>])" by code_simp
  have c: "apply_ops ?ops [] = Some ?q" by code_simp
  have d: "tasks (run [CallSchedule 5 1, CallSchedule 3 2, CallSchedule 9 3, MonitorStep 4, MonitorStep 4]
            (New None)) = [\<lparr>Deadline = 5, Call = 1\<rparr>, \<lparr>Deadline = 9, Call = 3\<rparr>]" by code_simp
  show ?thesis
    using heap_invariant_preserved[of ?h "\<lparr>Deadline = 1, Call = 7\<rparr>" "\<lparr>Deadline = 3, Call = 2\<rparr>"
        "[\<lparr>Deadline = 5, Call = 1\<rparr>]" ?ops ?q] a b c d
    by simp
qed

lemma trigger_effect:
  assumes "heap_inv (tasks g)" and "trigger now g = (g', next)"
  shows "\<exists>L. started g' = started g @ L \<and> wg g' = wg g + int (length L) \<and>
     mset (tasks g) = mset L + mset (tasks g') \<and>
     (\<forall>t \<in> set L. Deadline t \<le> now) \<and> sorted (map Deadline L) \<and>
     heap_inv (tasks g') \<and> (\<forall>t \<in> set (tasks g'). now < Deadline t) \<and>
     (tasks g' = [] \<longrightarrow> next = 0) \<and>
     (tasks g' \<noteq> [] \<longrightarrow> next = Deadline (tasks g' ! 0))"
proof -
  obtain g1 L where L: "trigger_post now g g1 next L"
    and g': "g' = (if wait_pc g = W_select then g1\<lparr>wait_pc := W_recv (length (tasks g1))\<rparr> else g1)"
    using trigger_post_ex[OF assms] by blast
  show ?thesis using L unfolding g' trigger_post_def by (intro exI[of _ L]) simp
qed

lemma filter_mset_split:
  assumes "M = A + B" "\<forall>t \<in># A. P t" "\<forall>t \<in># B. \<not> P t"
  shows "filter_mset P M = A" "filter_mset (\<lambda>t. \<not> P t) M = B"
proof -
  have "filter_mset P A = A" using assms(2) by (simp add: filter_mset_eq_conv)
  moreover have "filter_mset P B = {#}" using assms(3) by simp
  ultimately show "filter_mset P M = A" using assms(1) by simp
  have "filter_mset (\<lambda>t. \<not> P t) A = {#}" using assms(2) by simp
  moreover have "filter_mset (\<lambda>t. \<not> P t) B = B" using assms(3) by (simp add: filter_mset_eq_conv)
  ultimately show "filter_mset (\<lambda>t. \<not> P t) M = B" using assms(1) by simp
qed

text \<open>
  C4: on a heap, \<open>trigger now\<close> pops and starts exactly the tasks whose deadline is not after
  \<open>now\<close>, adds one to the wait counter for each of them, leaves the later tasks in the heap,
  and returns the deadline of the new root, or the zero instant when the heap is empty.
\<close>

theorem trigger_pops_all_due:
  assumes "heap_inv (tasks g)" and "trigger now g = (g', next)"
  shows "take (length (started g)) (started g') = started g \<and>
     mset (drop (length (started g)) (started g')) = filter_mset (\<lambda>t. Deadline t \<le> now) (mset (tasks g)) \<and>
     mset (tasks g') = filter_mset (\<lambda>t. \<not> Deadline t \<le> now) (mset (tasks g)) \<and>
     wg g' = wg g + int (size (filter_mset (\<lambda>t. Deadline t \<le> now) (mset (tasks g)))) \<and>
     (tasks g' \<noteq> [] \<longrightarrow> next = Deadline (tasks g' ! 0) \<and>
        (\<forall>y \<in> set (tasks g'). next \<le> Deadline y)) \<and>
     (tasks g' = [] \<longrightarrow> next = 0)"
proof -
  obtain L where L: "started g' = started g @ L" "wg g' = wg g + int (length L)"
     "mset (tasks g) = mset L + mset (tasks g')"
     "\<forall>t \<in> set L. Deadline t \<le> now" "heap_inv (tasks g')" "\<forall>t \<in> set (tasks g'). now < Deadline t"
     "tasks g' = [] \<longrightarrow> next = 0" "tasks g' \<noteq> [] \<longrightarrow> next = Deadline (tasks g' ! 0)"
    using trigger_effect[OF assms] by blast
  have f: "filter_mset (\<lambda>t. Deadline t \<le> now) (mset (tasks g)) = mset L"
       "filter_mset (\<lambda>t. \<not> Deadline t \<le> now) (mset (tasks g)) = mset (tasks g')"
  proof -
    have 1: "\<forall>t \<in># mset L. Deadline t \<le> now" using L(4) by simp
    have 2: "\<forall>t \<in># mset (tasks g'). \<not> Deadline t \<le> now" using L(6) by auto
    show "filter_mset (\<lambda>t. Deadline t \<le> now) (mset (tasks g)) = mset L"
      by (rule filter_mset_split(1)[OF L(3) 1 2])
    show "filter_mset (\<lambda>t. \<not> Deadline t \<le> now) (mset (tasks g)) = mset (tasks g')"
      by (rule filter_mset_split(2)[OF L(3) 1 2])
  qed
  have r: "\<forall>y \<in> set (tasks g'). Deadline (tasks g' ! 0) \<le> Deadline y"
    using heap_root_least[OF L(5)] by blast
  show ?thesis using L f r by simp
qed

theorem trigger_pops_all_due_witness:
  "heap_inv (tasks (run [CallSchedule 5 1, CallSchedule 3 2, CallSchedule 9 3] (New None))) \<and>
   trigger 6 (run [CallSchedule 5 1, CallSchedule 3 2, CallSchedule 9 3] (New None)) =
     ((run [CallSchedule 5 1, CallSchedule 3 2, CallSchedule 9 3] (New None))
        \<lparr>tasks := [\<lparr>Deadline = 9, Call = 3\<rparr>], wg := 3,
         started := [\<lparr>Deadline = 3, Call = 2\<rparr>, \<lparr>Deadline = 5, Call = 1\<rparr>]\<rparr>, 9) \<and>
   mset [\<lparr>Deadline = 3, Call = 2\<rparr>, \<lparr>Deadline = 5, Call = 1\<rparr>] =
     filter_mset (\<lambda>t. Deadline t \<le> 6)
       (mset (tasks (run [CallSchedule 5 1, CallSchedule 3 2, CallSchedule 9 3] (New None))))"
proof -
  let ?g = "run [CallSchedule 5 1, CallSchedule 3 2, CallSchedule 9 3] (New None)"
  let ?g' = "?g\<lparr>tasks := [\<lparr>Deadline = 9, Call = 3\<rparr>], wg := 3,
         started := [\<lparr>Deadline = 3, Call = 2\<rparr>, \<lparr>Deadline = 5, Call = 1\<rparr>]\<rparr>"
  have a: "heap_inv (tasks ?g)" by code_simp
  have b: "trigger 6 ?g = (?g', 9)" by code_simp
  have c: "started ?g = []" by code_simp
  show ?thesis using trigger_pops_all_due[OF a b] a b c by simp
qed

lemma distinct_map_submset:
  assumes "distinct (map f ys)" "mset xs \<subseteq># mset ys"
  shows "distinct (map f xs)"
proof -
  have "mset (map f xs) \<subseteq># mset (map f ys)" using assms(2) by (simp add: image_mset_subseteq_mono)
  then have "\<forall>a. count (mset (map f xs)) a \<le> count (mset (map f ys)) a"
    by (simp add: subseteq_mset_def)
  moreover have "\<forall>a. count (mset (map f ys)) a \<le> 1"
    using assms(1) by (simp add: distinct_count_atmost_1)
  ultimately have le1: "count (mset (map f xs)) a \<le> 1" for a using le_trans by blast
  show ?thesis
    unfolding distinct_count_atmost_1
  proof (intro allI)
    fix a
    show "count (mset (map f xs)) a = (if a \<in> set (map f xs) then 1 else 0)"
    proof (cases "a \<in> set (map f xs)")
      case True
      then have "0 < count (mset (map f xs)) a" by (simp only: count_greater_zero_iff set_mset_mset)
      then have "count (mset (map f xs)) a = 1" using le1[of a] by linarith
      then show ?thesis using True by (simp only: if_True)
    next
      case False
      then have "count (mset (map f xs)) a = 0" by (simp only: count_eq_zero_iff set_mset_mset not_False_eq_True)
      then show ?thesis using False by (simp only: if_False)
    qed
  qed
qed

text \<open>
  C5: the tasks that one pass of \<open>trigger now\<close> pops and starts all have a deadline not after
  \<open>now\<close> and are started in non-decreasing order of deadline; when the deadlines in the heap
  are pairwise distinct, the order is strictly increasing.
\<close>

theorem trigger_starts_in_deadline_order:
  assumes "heap_inv (tasks g)" and "trigger now g = (g', next)"
  shows "started g' = started g @ drop (length (started g)) (started g') \<and>
     list_all (\<lambda>t. Deadline t \<le> now) (drop (length (started g)) (started g')) \<and>
     sorted (map Deadline (drop (length (started g)) (started g'))) \<and>
     (distinct (map Deadline (tasks g)) \<longrightarrow>
        sorted_wrt (<) (map Deadline (drop (length (started g)) (started g'))))"
proof -
  obtain L where L: "started g' = started g @ L"
     "mset (tasks g) = mset L + mset (tasks g')"
     "\<forall>t \<in> set L. Deadline t \<le> now" "sorted (map Deadline L)"
    using trigger_effect[OF assms] by blast
  have d: "drop (length (started g)) (started g') = L" using L(1) by simp
  have "sorted_wrt (<) (map Deadline L)" if "distinct (map Deadline (tasks g))"
  proof -
    have "mset L \<subseteq># mset (tasks g)" using L(2) by simp
    then have "distinct (map Deadline L)" using that distinct_map_submset by blast
    then show ?thesis using L(4) by (simp add: strict_sorted_iff)
  qed
  then show ?thesis using L d by (simp add: list_all_iff)
qed

theorem trigger_starts_in_deadline_order_witness:
  "heap_inv (tasks (run [CallSchedule 7 1, CallSchedule 3 2, CallSchedule 9 3, CallSchedule 5 4] (New None))) \<and>
   distinct (map Deadline (tasks (run [CallSchedule 7 1, CallSchedule 3 2, CallSchedule 9 3, CallSchedule 5 4] (New None)))) \<and>
   started (fst (trigger 8 (run [CallSchedule 7 1, CallSchedule 3 2, CallSchedule 9 3, CallSchedule 5 4] (New None)))) =
     [\<lparr>Deadline = 3, Call = 2\<rparr>, \<lparr>Deadline = 5, Call = 4\<rparr>, \<lparr>Deadline = 7, Call = 1\<rparr>] \<and>
   sorted_wrt (<) (map Deadline [\<lparr>Deadline = 3, Call = 2\<rparr>, \<lparr>Deadline = 5, Call = 4\<rparr>, \<lparr>Deadline = 7, Call = 1\<rparr>])"
proof -
  let ?g = "run [CallSchedule 7 1, CallSchedule 3 2, CallSchedule 9 3, CallSchedule 5 4] (New None)"
  let ?g' = "?g\<lparr>tasks := [\<lparr>Deadline = 9, Call = 3\<rparr>], wg := 4,
         started := [\<lparr>Deadline = 3, Call = 2\<rparr>, \<lparr>Deadline = 5, Call = 4\<rparr>, \<lparr>Deadline = 7, Call = 1\<rparr>]\<rparr>"
  have a: "heap_inv (tasks ?g)" by code_simp
  have b: "trigger 8 ?g = (?g', 9)" by code_simp
  have c: "started ?g = []" by code_simp
  have d: "distinct (map Deadline (tasks ?g))" by code_simp
  show ?thesis using trigger_starts_in_deadline_order[OF a b] a b c d by simp
qed

section \<open>Delay, the monitor and Wait\<close>

lemma Schedule_fields:
  "started (Schedule when fn g) = started g"
  "accepted (Schedule when fn g) = accepted g @ [\<lparr>Deadline = when, Call = fn\<rparr>]"
  "tasks (Schedule when fn g) = heap_Push (tasks g) \<lparr>Deadline = when, Call = fn\<rparr>"
  "wait_pc (Schedule when fn g) = wait_pc g"
  "mon_pc (Schedule when fn g) = (case mon_pc g of M_select b \<Rightarrow> M_top | pc \<Rightarrow> pc)"
  by (simp_all add: Schedule_def Let_def split: mon_pc.splits)

lemma trigger_starts_due:
  assumes inv: "heap_inv (tasks g)" and t: "t \<in> set (tasks g)" and due: "Deadline t \<le> now"
  shows "t \<in> set (drop (length (started g)) (started (fst (trigger now g))))"
proof -
  obtain g' nx where tr: "trigger now g = (g', nx)" by (cases "trigger now g")
  obtain L where L: "started g' = started g @ L"
     "mset (tasks g) = mset L + mset (tasks g')" "\<forall>t \<in> set (tasks g'). now < Deadline t"
    using trigger_effect[OF inv tr] by blast
  have "t \<in># mset L + mset (tasks g')" using t L(2) by (metis set_mset_mset)
  moreover have "t \<notin> set (tasks g')" using L(3) due by auto
  ultimately have "t \<in> set L" by simp
  then show ?thesis using L(1) tr by simp
qed

text \<open>
  C9: \<open>Delay now d fn\<close> is \<open>Schedule (now + d) fn\<close>, where \<open>now\<close> is the clock reading at the
  call. With a negative \<open>d\<close> the deadline lies before \<open>now\<close>, so the task is due at once: the
  next pass of \<open>trigger\<close>, at that or any later instant, starts it.
\<close>

theorem Delay_is_Schedule:
  "Delay now d fn g = Delay_spec now d fn g \<and>
   accepted (Delay now d fn g) = accepted g @ [\<lparr>Deadline = now + d, Call = fn\<rparr>] \<and>
   (d < 0 \<longrightarrow> now + d < now) \<and>
   (d < 0 \<and> heap_inv (tasks g) \<and> now \<le> now' \<longrightarrow>
      \<lparr>Deadline = now + d, Call = fn\<rparr> \<in>
        set (drop (length (started g)) (started (fst (trigger now' (Delay now d fn g))))))"
proof (intro conjI impI)
  show "Delay now d fn g = Delay_spec now d fn g"
    by (simp add: Delay_def Delay_spec_def time_Add_def)
  show "accepted (Delay now d fn g) = accepted g @ [\<lparr>Deadline = now + d, Call = fn\<rparr>]"
    by (simp add: Delay_def time_Add_def Schedule_fields)
  assume "d < 0"
  then show "now + d < now" by simp
next
  assume a: "d < 0 \<and> heap_inv (tasks g) \<and> now \<le> now'"
  let ?t = "\<lparr>Deadline = now + d, Call = fn\<rparr>"
  let ?g = "Delay now d fn g"
  have tk: "tasks ?g = heap_Push (tasks g) ?t" by (simp add: Delay_def time_Add_def Schedule_fields)
  have inv: "heap_inv (tasks ?g)" using a tk by (simp add: heap_inv_Push)
  have "?t \<in># mset (tasks ?g)" using tk by (simp add: mset_heap_Push)
  then have mem: "?t \<in> set (tasks ?g)" by simp
  have due: "Deadline ?t \<le> now'" using a by simp
  have "?t \<in> set (drop (length (started ?g)) (started (fst (trigger now' ?g))))"
    by (rule trigger_starts_due[OF inv mem due])
  moreover have "started ?g = started g" by (simp add: Delay_def Schedule_fields)
  ultimately show "?t \<in> set (drop (length (started g)) (started (fst (trigger now' ?g))))" by simp
qed

theorem Delay_is_Schedule_witness:
  "Delay 100 (- 30) 7 (New None) = Schedule 70 7 (New None) \<and> (- 30 :: int) < 0 \<and>
   heap_inv (tasks (New None)) \<and>
   started (fst (trigger 100 (Delay 100 (- 30) 7 (New None)))) = [\<lparr>Deadline = 70, Call = 7\<rparr>]"
proof -
  have a: "heap_inv (tasks (New None))" by code_simp
  have b: "started (fst (trigger 100 (Delay 100 (- 30) 7 (New None)))) = [\<lparr>Deadline = 70, Call = 7\<rparr>]"
    by code_simp
  have c: "started (New None) = []" by code_simp
  show ?thesis
    using Delay_is_Schedule[of 100 "- 30" 7 "New None" 100] a b c
    by (simp add: Delay_spec_def)
qed

lemma time_Sub_exact:
  "minDuration \<le> t - u \<Longrightarrow> t - u \<le> maxDuration \<Longrightarrow> time_Sub t u = t - u"
  by (simp add: time_Sub_def Let_def)

text \<open>
  C8: the monitor, having run \<open>trigger now\<close>: if the result is not the zero instant it resets
  its timer to \<open>next.Sub(now)\<close> (which is \<open>next - now\<close> whenever that fits a Duration) and
  its \<open>select\<close> includes the timer's channel; if the result is the zero instant it stops the
  timer and its \<open>tickC\<close> is nil. Parked in the \<open>select\<close> with a nil \<open>tickC\<close>, a timer delivery
  cannot wake it: it moves again only when the derived context is done or \<open>Schedule\<close> sends on
  \<open>addC\<close>. For a clock reading that is not before the zero instant, the result of \<open>trigger\<close>
  is the zero instant exactly when the heap is empty.
\<close>

theorem monitor_arms_or_stops_timer:
  assumes "mon_pc g = M_trig now" and "trigger now g = (g', next)"
  shows "monitor clock g =
       (if next \<noteq> 0 then g'\<lparr>timer := Armed (time_Sub next now), mon_pc := M_armed True\<rparr>
        else g'\<lparr>timer := Stopped, mon_pc := M_armed False\<rparr>) \<and>
     (minDuration \<le> next - now \<and> next - now \<le> maxDuration \<longrightarrow> time_Sub next now = next - now) \<and>
     monitor clock' (monitor clock g) =
       (if mctx_done g' then (monitor clock g)\<lparr>mon_pc := M_top\<rparr>
        else (monitor clock g)\<lparr>mon_pc := M_select (next \<noteq> 0)\<rparr>) \<and>
     (mon_pc s = M_select tickC \<longrightarrow>
        step Tick s = (if tickC then s\<lparr>mon_pc := M_top\<rparr> else s) \<and>
        monitor clock' s = (if mctx_done s then s\<lparr>mon_pc := M_top\<rparr> else s) \<and>
        mon_pc (Schedule when fn s) = M_top) \<and>
     (heap_inv (tasks g) \<and> 0 \<le> now \<longrightarrow> (next \<noteq> 0) = (tasks g' \<noteq> []))"
proof -
  have m: "monitor clock g =
       (if next \<noteq> 0 then g'\<lparr>timer := Armed (time_Sub next now), mon_pc := M_armed True\<rparr>
        else g'\<lparr>timer := Stopped, mon_pc := M_armed False\<rparr>)"
    using assms by (simp add: monitor_def)
  have e: "(next \<noteq> 0) = (tasks g' \<noteq> [])" if hi: "heap_inv (tasks g)" and nn: "0 \<le> now"
  proof -
    obtain L where L: "\<forall>t \<in> set (tasks g'). now < Deadline t"
      "tasks g' = [] \<longrightarrow> next = 0" "tasks g' \<noteq> [] \<longrightarrow> next = Deadline (tasks g' ! 0)"
      using trigger_effect[OF hi assms(2)] by blast
    show ?thesis
    proof (cases "tasks g' = []")
      case True then show ?thesis using L(2) by simp
    next
      case False
      then have "tasks g' ! 0 \<in> set (tasks g')" by simp
      then have "now < Deadline (tasks g' ! 0)" using L(1) by blast
      then show ?thesis using False L(3) nn by simp
    qed
  qed
  have p: "step Tick s = (if tickC then s\<lparr>mon_pc := M_top\<rparr> else s) \<and>
        monitor clock' s = (if mctx_done s then s\<lparr>mon_pc := M_top\<rparr> else s) \<and>
        mon_pc (Schedule when fn s) = M_top" if "mon_pc s = M_select tickC"
    using that by (simp add: monitor_def Schedule_fields)
  show ?thesis
    unfolding m using e p
    by (simp add: time_Sub_exact monitor_def)
qed

theorem monitor_arms_or_stops_timer_witness:
  "mon_pc (run [CallSchedule 5 1, CallSchedule 3 2, MonitorStep 4] (New None)) = M_trig 4 \<and>
   timer (run [CallSchedule 5 1, CallSchedule 3 2, MonitorStep 4, MonitorStep 4] (New None)) = Armed 1 \<and>
   mon_pc (run [CallSchedule 5 1, CallSchedule 3 2, MonitorStep 4, MonitorStep 4, MonitorStep 4] (New None)) =
     M_select True \<and>
   mon_pc (run [CallSchedule 5 1, CallSchedule 3 2, MonitorStep 9] (New None)) = M_trig 9 \<and>
   timer (run [CallSchedule 5 1, CallSchedule 3 2, MonitorStep 9, MonitorStep 9] (New None)) = Stopped \<and>
   mon_pc (run [CallSchedule 5 1, CallSchedule 3 2, MonitorStep 9, MonitorStep 9, MonitorStep 9] (New None)) =
     M_select False \<and>
   step Tick (run [CallSchedule 5 1, CallSchedule 3 2, MonitorStep 9, MonitorStep 9, MonitorStep 9] (New None)) =
     run [CallSchedule 5 1, CallSchedule 3 2, MonitorStep 9, MonitorStep 9, MonitorStep 9] (New None) \<and>
   heap_inv (tasks (run [CallSchedule 5 1, CallSchedule 3 2, MonitorStep 4] (New None)))"
proof -
  let ?g = "run [CallSchedule 5 1, CallSchedule 3 2, MonitorStep 4] (New None)"
  let ?h = "run [CallSchedule 5 1, CallSchedule 3 2, MonitorStep 9] (New None)"
  let ?h3 = "run [CallSchedule 5 1, CallSchedule 3 2, MonitorStep 9, MonitorStep 9, MonitorStep 9] (New None)"
  have a: "mon_pc ?g = M_trig 4" by code_simp
  have b: "trigger 4 ?g = (?g\<lparr>tasks := [\<lparr>Deadline = 5, Call = 1\<rparr>], wg := 2,
      started := [\<lparr>Deadline = 3, Call = 2\<rparr>]\<rparr>, 5)" by code_simp
  have c: "mon_pc ?h = M_trig 9" by code_simp
  have d: "trigger 9 ?h = (?h\<lparr>tasks := [], wg := 3,
      started := [\<lparr>Deadline = 3, Call = 2\<rparr>, \<lparr>Deadline = 5, Call = 1\<rparr>]\<rparr>, 0)" by code_simp
  have k: "mon_pc ?h3 = M_select False" by code_simp
  have i: "heap_inv (tasks ?g)" by code_simp
  have r1: "run [CallSchedule 5 1, CallSchedule 3 2, MonitorStep 4, MonitorStep 4] (New None) = monitor 4 ?g"
    by (simp add: run_def)
  have r3: "run [CallSchedule 5 1, CallSchedule 3 2, MonitorStep 9, MonitorStep 9] (New None) = monitor 9 ?h"
    by (simp add: run_def)
  have s: "time_Sub 5 4 = 1" by (simp add: time_Sub_def maxDuration_def minDuration_def)
  have t1: "timer (monitor 4 ?g) = Armed 1"
    using monitor_arms_or_stops_timer[OF a b, of 4 4 ?h3 False 0 0] s by simp
  have t2: "timer (monitor 9 ?h) = Stopped \<and> step Tick ?h3 = ?h3"
    using monitor_arms_or_stops_timer[OF c d, of 9 9 ?h3 False 0 0] k by simp
  have t3: "mon_pc (run [CallSchedule 5 1, CallSchedule 3 2, MonitorStep 4, MonitorStep 4, MonitorStep 4]
      (New None)) = M_select True" by code_simp
  show ?thesis
    using a c k i t1 t2 t3 unfolding r1 r3 by (simp only: simp_thms)
qed

text \<open>
  C10: in the receive loop of \<open>Wait\<close>, once a count has arrived on \<open>lenC\<close> the context is
  checked again: if it is cancelled by then, \<open>Wait\<close> returns its error whatever the count,
  zero included.
\<close>

theorem Wait_rechecks_after_receive:
  assumes "wait_pc g = W_recv n" and "ctx_err g = Some err"
  shows "Wait g = g\<lparr>wait_pc := W_ret (Some err)\<rparr>"
  using assms by (simp add: Wait_def)

theorem Wait_rechecks_after_receive_witness:
  "wait_pc (run [CallSchedule 3 1, WaitStep, WaitStep, WaitStep, MonitorStep 5, MonitorStep 5, Cancel Canceled]
      (New None)) = W_recv 0 \<and>
   ctx_err (run [CallSchedule 3 1, WaitStep, WaitStep, WaitStep, MonitorStep 5, MonitorStep 5, Cancel Canceled]
      (New None)) = Some Canceled \<and>
   wait_pc (run [CallSchedule 3 1, WaitStep, WaitStep, WaitStep, MonitorStep 5, MonitorStep 5, Cancel Canceled, WaitStep]
      (New None)) = W_ret (Some Canceled)"
proof -
  let ?g = "run [CallSchedule 3 1, WaitStep, WaitStep, WaitStep, MonitorStep 5, MonitorStep 5, Cancel Canceled] (New None)"
  have a: "wait_pc ?g = W_recv 0" by code_simp
  have b: "ctx_err ?g = Some Canceled" by code_simp
  have r: "run [CallSchedule 3 1, WaitStep, WaitStep, WaitStep, MonitorStep 5, MonitorStep 5, Cancel Canceled, WaitStep]
      (New None) = Wait ?g" by (simp add: run_def)
  show ?thesis unfolding r using Wait_rechecks_after_receive[OF a b] a b by simp
qed

lemma trigger_loop_frame:
  "trigger_loop now g = (g', nx) \<Longrightarrow> ctx_err g' = ctx_err g \<and> wait_pc g' = wait_pc g"
proof (induction now g arbitrary: g' nx rule: trigger_loop.induct)
  case (1 now g)
  show ?case
  proof (cases "tasks g = []")
    case True
    then show ?thesis using "1.prems" by (simp add: trigger_loop_stop_empty)
  next
    case ne: False
    show ?thesis
    proof (cases "now < Deadline (tasks g ! 0)")
      case True
      then show ?thesis using "1.prems" ne by (auto simp: trigger_loop_stop_later)
    next
      case False
      then have le: "Deadline (tasks g ! 0) \<le> now" by simp
      obtain t h' where pop: "heap_Pop (tasks g) = Some (t, h')"
        using ne heap_Pop_None[of "tasks g"] by (cases "heap_Pop (tasks g)") auto
      let ?g1 = "g\<lparr>tasks := h', wg := wg g + 1, started := started g @ [t]\<rparr>"
      have lp: "0 < Len (tasks g)" using ne by (simp add: Len_def)
      have rec: "trigger_loop now ?g1 = (g', nx)"
        using "1.prems" trigger_loop_pop[OF ne le pop] by simp
      show ?thesis using "1.IH"[OF lp refl False pop refl rec] by simp
    qed
  qed
qed

lemma trigger_frame:
  assumes "trigger now g = (g', nx)"
  shows "ctx_err g' = ctx_err g" "at_check (wait_pc g) \<Longrightarrow> at_check (wait_pc g')"
    "wait_pc g = W_ret r \<Longrightarrow> wait_pc g' = W_ret r"
proof -
  obtain g1 n1 where l: "trigger_loop now g = (g1, n1)" by (cases "trigger_loop now g")
  have f: "ctx_err g1 = ctx_err g" "wait_pc g1 = wait_pc g" using trigger_loop_frame[OF l] by simp_all
  have g': "g' = (if wait_pc g1 = W_select then g1\<lparr>wait_pc := W_recv (Len (tasks g1))\<rparr> else g1)"
    using assms l by (auto simp: trigger_def)
  show "ctx_err g' = ctx_err g" using f g' by simp
  show "at_check (wait_pc g) \<Longrightarrow> at_check (wait_pc g')" using f g' by simp
  show "wait_pc g = W_ret r \<Longrightarrow> wait_pc g' = W_ret r" using f g' by simp
qed

lemma cancel_seen_monitor: "cancel_seen err g \<Longrightarrow> cancel_seen err (monitor clock g)"
proof (cases "mon_pc g")
  case (M_trig now)
  assume c: "cancel_seen err g"
  obtain g' nx where tr: "trigger now g = (g', nx)" by (cases "trigger now g")
  have "cancel_seen err g'" using c trigger_frame[OF tr] by (auto simp: cancel_seen_def)
  then show ?thesis using M_trig tr by (simp add: monitor_def cancel_seen_def)
qed (auto simp: monitor_def cancel_seen_def)

lemma cancel_seen_step: "cancel_seen err g \<Longrightarrow> cancel_seen err (step e g)"
proof (cases e)
  case (MonitorStep clock)
  assume "cancel_seen err g"
  then show ?thesis unfolding MonitorStep by (simp add: cancel_seen_monitor)
next
  case WaitStep
  assume "cancel_seen err g"
  then show ?thesis unfolding WaitStep
    by (cases "wait_pc g") (auto simp: cancel_seen_def Wait_def)
qed (auto simp: cancel_seen_def Schedule_def Delay_def Let_def split: mon_pc.splits)

lemma cancel_seen_run: "cancel_seen err g \<Longrightarrow> cancel_seen err (run evs g)"
  by (induction evs arbitrary: g) (simp_all add: run_Nil run_Cons cancel_seen_step)

text \<open>
  C3, as the code has it: whenever the context is already cancelled at one of the three
  places where \<open>Wait\<close> looks at it (on entry, parked in its \<open>select\<close>, after a receive from
  \<open>lenC\<close>), the next move of \<open>Wait\<close> returns the context's error and changes nothing else
  (on entry the heap is not read), whatever the other goroutines do in between; from then
  on \<open>Wait\<close> cannot return nil.
\<close>

theorem Wait_returns_cancellation:
  assumes "ctx_err g = Some err" and "at_check (wait_pc g)"
  shows "Wait g = g\<lparr>wait_pc := W_ret (Some err)\<rparr> \<and>
     wait_pc (run (evs @ [WaitStep]) g) = W_ret (Some err) \<and>
     (\<forall>r. wait_pc (run evs g) = W_ret r \<longrightarrow> r = Some err)"
proof -
  have c: "cancel_seen err (run evs g)"
    using assms by (intro cancel_seen_run) (simp add: cancel_seen_def)
  have 1: "Wait g = g\<lparr>wait_pc := W_ret (Some err)\<rparr>"
    using assms by (cases "wait_pc g") (simp_all add: Wait_def)
  have 2: "wait_pc (Wait (run evs g)) = W_ret (Some err)"
    using c by (cases "wait_pc (run evs g)") (auto simp: cancel_seen_def Wait_def)
  have 3: "\<forall>r. wait_pc (run evs g) = W_ret r \<longrightarrow> r = Some err"
    using c by (auto simp: cancel_seen_def)
  show ?thesis using 1 2 3 by (simp add: run_append run_Cons run_Nil)
qed

theorem Wait_returns_cancellation_witness:
  "ctx_err (New (Some DeadlineExceeded)) = Some DeadlineExceeded \<and>
   at_check (wait_pc (New (Some DeadlineExceeded))) \<and>
   Wait (New (Some DeadlineExceeded)) = (New (Some DeadlineExceeded))\<lparr>wait_pc := W_ret (Some DeadlineExceeded)\<rparr> \<and>
   wait_pc (run [CallSchedule 3 1, MonitorStep 5, Propagate, WaitStep] (New (Some DeadlineExceeded))) =
     W_ret (Some DeadlineExceeded)"
proof -
  have a: "ctx_err (New (Some DeadlineExceeded)) = Some DeadlineExceeded" by (simp add: New_def)
  have b: "at_check (wait_pc (New (Some DeadlineExceeded)))" by (simp add: New_def)
  show ?thesis
    using Wait_returns_cancellation[OF a b, of "[CallSchedule 3 1, MonitorStep 5, Propagate]"] a b
    by simp
qed

text \<open>
  The claim C3 as it is worded (cancellation at any point makes \<open>Wait\<close> return the error)
  fails: here \<open>Wait\<close> has passed the check of line 91 and found the heap empty when the
  context is cancelled; it goes on to cancel the monitor, waits for the counter and returns
  nil.
\<close>

theorem Wait_nil_after_cancellation:
  "wait_pc (run [WaitStep, WaitStep, Cancel Canceled] (New None)) = W_cancel \<and>
   ctx_err (run [WaitStep, WaitStep, Cancel Canceled] (New None)) = Some Canceled \<and>
   wait_pc (run [WaitStep, WaitStep, Cancel Canceled, WaitStep, MonitorStep 3, WaitStep] (New None)) =
     W_ret None \<and>
   ctx_err (run [WaitStep, WaitStep, Cancel Canceled, WaitStep, MonitorStep 3, WaitStep] (New None)) =
     Some Canceled"
  by code_simp

text \<open>
  C1: \<open>Schedule\<close> and \<open>Delay\<close> have no check for a \<open>Wait\<close> in progress. With \<open>Wait\<close> parked in
  its \<open>select\<close>, both return normally with the task pushed on the heap.
\<close>

theorem Schedule_after_Wait_is_accepted:
  "wait_pc (run [CallSchedule 5 1, WaitStep, WaitStep, WaitStep] (New None)) = W_select \<and>
   Schedule 7 2 (run [CallSchedule 5 1, WaitStep, WaitStep, WaitStep] (New None)) =
     (run [CallSchedule 5 1, WaitStep, WaitStep, WaitStep] (New None))
       \<lparr>tasks := [\<lparr>Deadline = 5, Call = 1\<rparr>, \<lparr>Deadline = 7, Call = 2\<rparr>],
        accepted := [\<lparr>Deadline = 5, Call = 1\<rparr>, \<lparr>Deadline = 7, Call = 2\<rparr>]\<rparr> \<and>
   Delay 4 3 2 (run [CallSchedule 5 1, WaitStep, WaitStep, WaitStep] (New None)) =
     (run [CallSchedule 5 1, WaitStep, WaitStep, WaitStep] (New None))
       \<lparr>tasks := [\<lparr>Deadline = 5, Call = 1\<rparr>, \<lparr>Deadline = 7, Call = 2\<rparr>],
        accepted := [\<lparr>Deadline = 5, Call = 1\<rparr>, \<lparr>Deadline = 7, Call = 2\<rparr>]\<rparr>"
  by code_simp

section \<open>What a successful Wait guarantees\<close>

lemma Wait_nil_all_finished:
  assumes inv: "group_inv g" and r: "wait_pc g = W_ret None"
  shows "wg g = 0 \<and> mon_pc g = M_done \<and> mset (finished g) = mset (started g)"
proof -
  have sub: "mset (finished g) \<subseteq># mset (started g)" using inv by (simp add: group_inv_def)
  have le: "length (finished g) \<le> length (started g)" by (rule finished_le_started[OF sub])
  have w: "wg g = 0" using inv r by (simp add: group_inv_def)
  have f: "wg g = (if mon_pc g = M_done then 0 else 1) + int (length (started g)) - int (length (finished g))"
    using inv by (simp add: group_inv_def)
  have d: "mon_pc g = M_done" using w f le by (auto split: if_splits)
  have "length (finished g) = length (started g)" using w f d by simp
  then have "mset (finished g) = mset (started g)" by (rule finished_eq_started[OF sub])
  then show ?thesis using w d by simp
qed




text \<open>
  No task runs twice. A task accepted by \<open>Schedule\<close> is on the heap or has been started,
  never both: heap and start log together are exactly the accepted tasks, and the finished
  bodies are among the started ones. When all scheduling precedes \<open>Wait\<close> and the context is
  never cancelled, the monitor is not stopped while a task is on the heap, \<open>Wait\<close> can only
  return nil, and when it has returned, the bodies started and finished are exactly the
  accepted tasks, as many as were scheduled.
\<close>

theorem tasks_run_once:
  "mset (tasks (run evs (New ctx))) + mset (started (run evs (New ctx))) =
     mset (accepted (run evs (New ctx))) \<and>
   mset (finished (run evs (New ctx))) \<subseteq># mset (started (run evs (New ctx))) \<and>
   (schedule_then_wait evs \<and> ctx_err (run evs (New ctx)) = None \<longrightarrow>
      (mctx_done (run evs (New ctx)) \<longrightarrow> tasks (run evs (New ctx)) = []) \<and>
      (\<forall>r. wait_pc (run evs (New ctx)) = W_ret r \<longrightarrow>
         r = None \<and>
         mset (started (run evs (New ctx))) = mset (accepted (run evs (New ctx))) \<and>
         mset (finished (run evs (New ctx))) = mset (accepted (run evs (New ctx))) \<and>
         length (finished (run evs (New ctx))) = length (accepted (run evs (New ctx)))))"
proof -
  let ?g = "run evs (New ctx)"
  have inv: "group_inv ?g" by (rule group_inv_run[OF group_inv_New])
  have 1: "mset (tasks ?g) + mset (started ?g) = mset (accepted ?g)"
    and 2: "mset (finished ?g) \<subseteq># mset (started ?g)"
    using inv by (simp_all add: group_inv_def)
  have 3: "(mctx_done ?g \<longrightarrow> tasks ?g = []) \<and>
      (\<forall>r. wait_pc ?g = W_ret r \<longrightarrow> r = None \<and> mset (started ?g) = mset (accepted ?g) \<and>
         mset (finished ?g) = mset (accepted ?g) \<and> length (finished ?g) = length (accepted ?g))"
    if c: "schedule_then_wait evs" and n: "ctx_err ?g = None"
  proof (intro conjI allI impI)
    have d: "drained ?g"
      by (rule drained_after_wait[OF group_inv_New _ c]) (simp add: New_def)
    {
      assume "mctx_done ?g"
      then have "wait_pc ?g = W_wg \<or> wait_pc ?g = W_ret None" using inv n by (simp add: group_inv_def)
      then show "tasks ?g = []" using d by (auto simp: drained_def)
    }
    fix r assume r: "wait_pc ?g = W_ret r"
    show rn: "r = None"
    proof (cases r)
      case (Some err)
      then have "ctx_err ?g = Some err" using inv r by (simp add: group_inv_def)
      then show ?thesis using n by simp
    qed simp
    have e: "tasks ?g = []" using d r rn by (simp add: drained_def)
    show sa: "mset (started ?g) = mset (accepted ?g)" using 1 e by simp
    have fs: "mset (finished ?g) = mset (started ?g)"
      using Wait_nil_all_finished[OF inv] r rn by simp
    show fa: "mset (finished ?g) = mset (accepted ?g)" using fs sa by simp
    show "length (finished ?g) = length (accepted ?g)" using fa by (metis size_mset)
  qed
  show ?thesis
  proof (intro conjI impI)
    assume "schedule_then_wait evs \<and> ctx_err ?g = None"
    then show "mctx_done ?g \<Longrightarrow> tasks ?g = []"
      and "\<forall>r. wait_pc ?g = W_ret r \<longrightarrow> r = None \<and> mset (started ?g) = mset (accepted ?g) \<and>
         mset (finished ?g) = mset (accepted ?g) \<and> length (finished ?g) = length (accepted ?g)"
      using 3 by blast+
  qed (rule 1, rule 2)
qed

theorem tasks_run_once_witness:
  "schedule_then_wait [CallSchedule 5 1, CallSchedule 3 2, WaitStep, WaitStep, WaitStep, MonitorStep 6, MonitorStep 6,
       Finish \<lparr>Deadline = 5, Call = 1\<rparr>, WaitStep, WaitStep, MonitorStep 7, MonitorStep 7,
       Finish \<lparr>Deadline = 3, Call = 2\<rparr>, WaitStep] \<and>
   ctx_err (run [CallSchedule 5 1, CallSchedule 3 2, WaitStep, WaitStep, WaitStep, MonitorStep 6, MonitorStep 6,
       Finish \<lparr>Deadline = 5, Call = 1\<rparr>, WaitStep, WaitStep, MonitorStep 7, MonitorStep 7,
       Finish \<lparr>Deadline = 3, Call = 2\<rparr>, WaitStep] (New None)) = None \<and>
   wait_pc (run [CallSchedule 5 1, CallSchedule 3 2, WaitStep, WaitStep, WaitStep, MonitorStep 6, MonitorStep 6,
       Finish \<lparr>Deadline = 5, Call = 1\<rparr>, WaitStep, WaitStep, MonitorStep 7, MonitorStep 7,
       Finish \<lparr>Deadline = 3, Call = 2\<rparr>, WaitStep] (New None)) = W_ret None \<and>
   mctx_done (run [CallSchedule 5 1, CallSchedule 3 2, WaitStep, WaitStep, WaitStep, MonitorStep 6, MonitorStep 6,
       Finish \<lparr>Deadline = 5, Call = 1\<rparr>, WaitStep, WaitStep, MonitorStep 7, MonitorStep 7,
       Finish \<lparr>Deadline = 3, Call = 2\<rparr>, WaitStep] (New None)) \<and>
   length (finished (run [CallSchedule 5 1, CallSchedule 3 2, WaitStep, WaitStep, WaitStep, MonitorStep 6, MonitorStep 6,
       Finish \<lparr>Deadline = 5, Call = 1\<rparr>, WaitStep, WaitStep, MonitorStep 7, MonitorStep 7,
       Finish \<lparr>Deadline = 3, Call = 2\<rparr>, WaitStep] (New None))) = 2 \<and>
   length (accepted (run [CallSchedule 5 1, CallSchedule 3 2, WaitStep, WaitStep, WaitStep, MonitorStep 6, MonitorStep 6,
       Finish \<lparr>Deadline = 5, Call = 1\<rparr>, WaitStep, WaitStep, MonitorStep 7, MonitorStep 7,
       Finish \<lparr>Deadline = 3, Call = 2\<rparr>, WaitStep] (New None))) = 2"
proof -
  let ?evs = "[CallSchedule 5 1, CallSchedule 3 2, WaitStep, WaitStep, WaitStep, MonitorStep 6, MonitorStep 6,
       Finish \<lparr>Deadline = 5, Call = 1\<rparr>, WaitStep, WaitStep, MonitorStep 7, MonitorStep 7,
       Finish \<lparr>Deadline = 3, Call = 2\<rparr>, WaitStep]"
  have a: "schedule_then_wait ?evs" by code_simp
  have b: "ctx_err (run ?evs (New None)) = None" by code_simp
  have c: "wait_pc (run ?evs (New None)) = W_ret None" by code_simp
  have d: "mctx_done (run ?evs (New None))" by code_simp
  have e: "length (accepted (run ?evs (New None))) = 2" by code_simp
  have f: "length (finished (run ?evs (New None))) = length (accepted (run ?evs (New None)))"
    using tasks_run_once[of ?evs None] a b c by blast
  show ?thesis using a b c d e f by (simp only: simp_thms)
qed

text \<open>
  C7, the schedule on which it fails: the monitor has run \<open>trigger\<close> on the empty heap and
  stopped its timer, but has not reached its \<open>select\<close> yet, when \<open>Schedule\<close> pushes a task;
  the send on \<open>addC\<close> finds no receiver and is dropped. The monitor then parks with a nil
  \<open>tickC\<close> and \<open>Wait\<close>, entered afterwards, parks on \<open>lenC\<close>. The task stays on the heap and no
  goroutine can move: its body is never started and \<open>Wait\<close> never returns, unless the context
  is cancelled or \<open>Schedule\<close> is called once more.
\<close>

theorem scheduled_task_never_started:
  "schedule_then_wait [MonitorStep 3, MonitorStep 3, CallSchedule 5 1, MonitorStep 3,
      WaitStep, WaitStep, WaitStep] \<and>
   run [MonitorStep 3, MonitorStep 3, CallSchedule 5 1, MonitorStep 3, WaitStep, WaitStep, WaitStep]
     (New None) =
     \<lparr>ctx_err = None, mctx_done = False, wg = 1, tasks = [\<lparr>Deadline = 5, Call = 1\<rparr>],
      wait_pc = W_select, mon_pc = M_select False, timer = Stopped,
      accepted = [\<lparr>Deadline = 5, Call = 1\<rparr>], started = [], finished = []\<rparr> \<and>
   step WaitStep (run [MonitorStep 3, MonitorStep 3, CallSchedule 5 1, MonitorStep 3,
      WaitStep, WaitStep, WaitStep] (New None)) =
     run [MonitorStep 3, MonitorStep 3, CallSchedule 5 1, MonitorStep 3, WaitStep, WaitStep, WaitStep]
       (New None) \<and>
   step (MonitorStep clock) (run [MonitorStep 3, MonitorStep 3, CallSchedule 5 1, MonitorStep 3,
      WaitStep, WaitStep, WaitStep] (New None)) =
     run [MonitorStep 3, MonitorStep 3, CallSchedule 5 1, MonitorStep 3, WaitStep, WaitStep, WaitStep]
       (New None) \<and>
   step Tick (run [MonitorStep 3, MonitorStep 3, CallSchedule 5 1, MonitorStep 3,
      WaitStep, WaitStep, WaitStep] (New None)) =
     run [MonitorStep 3, MonitorStep 3, CallSchedule 5 1, MonitorStep 3, WaitStep, WaitStep, WaitStep]
       (New None) \<and>
   step Propagate (run [MonitorStep 3, MonitorStep 3, CallSchedule 5 1, MonitorStep 3,
      WaitStep, WaitStep, WaitStep] (New None)) =
     run [MonitorStep 3, MonitorStep 3, CallSchedule 5 1, MonitorStep 3, WaitStep, WaitStep, WaitStep]
       (New None) \<and>
   step (Finish t) (run [MonitorStep 3, MonitorStep 3, CallSchedule 5 1, MonitorStep 3,
      WaitStep, WaitStep, WaitStep] (New None)) =
     run [MonitorStep 3, MonitorStep 3, CallSchedule 5 1, MonitorStep 3, WaitStep, WaitStep, WaitStep]
       (New None)"
proof -
  let ?evs = "[MonitorStep 3, MonitorStep 3, CallSchedule 5 1, MonitorStep 3, WaitStep, WaitStep, WaitStep]"
  have c: "schedule_then_wait ?evs" by code_simp
  have r: "run ?evs (New None) =
     \<lparr>ctx_err = None, mctx_done = False, wg = 1, tasks = [\<lparr>Deadline = 5, Call = 1\<rparr>],
      wait_pc = W_select, mon_pc = M_select False, timer = Stopped,
      accepted = [\<lparr>Deadline = 5, Call = 1\<rparr>], started = [], finished = []\<rparr>" by code_simp
  show ?thesis unfolding r using c by (simp add: Wait_def monitor_def)
qed

end
